theory Spec2Isabelle
  imports Main "HOL-Library.Char_ord" "HOL-Library.List_Lexorder" "HOL-Library.Multiset"
begin

section \<open>Data model of the key-value store (openr/kvstore/KvStore.cpp)\<close>

text \<open>
  \<^verbatim>\<open>thrift::Value\<close>: the 64-bit integers are read as mathematical integers (the code
  compares them; the arithmetic on a \<open>ttl\<close>, when it becomes an instant of the clock and
  back, is in the section on the clock below). The optional thrift fields \<^verbatim>\<open>value\<close> and \<^verbatim>\<open>hash\<close> are options; the
  field \<^verbatim>\<open>value\<close> is called \<open>val\<close> here. Strings are byte strings, ordered as
  \<^verbatim>\<open>std::string\<close> orders them (lexicographically, bytes unsigned).
\<close>

record Value =
  version :: int
  originatorId :: string
  val :: "string option"
  ttl :: int
  ttlVersion :: int
  hash :: "int option"

text \<open>
  An \<^verbatim>\<open>unordered_map\<close> is an association list: the list order is the iteration order,
  \<^verbatim>\<open>find\<close> is \<^const>\<open>map_of\<close>. The keys of a map received from outside are distinct, which
  theorems assume where they need it.
\<close>

type_synonym KeyVals = "(string \<times> Value) list"

definition emplace :: "('k \<times> 'v) list \<Rightarrow> 'k \<Rightarrow> 'v \<Rightarrow> ('k \<times> 'v) list" where
  \<comment> \<open>\<^verbatim>\<open>m.emplace(k, v)\<close>: inserts only when the key is absent\<close>
  "emplace m k v = (case map_of m k of None \<Rightarrow> m @ [(k, v)] | Some _ \<Rightarrow> m)"

fun assign :: "('k \<times> 'v) list \<Rightarrow> 'k \<Rightarrow> 'v \<Rightarrow> ('k \<times> 'v) list" where
  \<comment> \<open>\<^verbatim>\<open>m[k] = v\<close>, and assignment through an iterator\<close>
  "assign [] k v = [(k, v)]"
| "assign (p # m) k v = (if fst p = k then (k, v) # m else p # assign m k v)"

definition erase :: "('k \<times> 'v) list \<Rightarrow> 'k \<Rightarrow> ('k \<times> 'v) list" where
  "erase m k = filter (\<lambda>p. fst p \<noteq> k) m"

text \<open>
  Parts of the repository used by \<^verbatim>\<open>KvStore.cpp\<close> whose code is not among the sources are
  parameters of the model: the constants \<^verbatim>\<open>Constants::kTtlInfinity\<close> and
  \<^verbatim>\<open>Constants::kTtlThreshold\<close> (milliseconds), the function \<^verbatim>\<open>generateHash\<close> of
  \<^verbatim>\<open>openr/common/Util.h\<close>, the socket identity of a peer (\<^verbatim>\<open>kGlobalCmdLocalIdTemplate\<close>
  formatted with the peer name and a counter), the default arguments that
  \<^verbatim>\<open>KvStore.h\<close> declares for \<^verbatim>\<open>floodPublication\<close> (\<^verbatim>\<open>rateLimit\<close>, \<^verbatim>\<open>setFloodRoot\<close>) and
  \<^verbatim>\<open>updatePublicationTtl\<close> (\<^verbatim>\<open>removeAboutToExpire\<close>), the string
  \<^verbatim>\<open>Constants::kSuccessResponse\<close>, \<^verbatim>\<open>folly::split\<close> on commas (empty pieces ignored),
  the constructor of the prefix matcher \<^verbatim>\<open>KeyPrefix\<close>, and the order in which the TTL
  countdown queue keeps its entries after a \<^verbatim>\<open>push\<close> and after a \<^verbatim>\<open>pop\<close> (see the section
  on the queue).
\<close>

record Externals =
  kTtlInfinity :: int
  kTtlThreshold :: int
  generateHash :: "int \<Rightarrow> string \<Rightarrow> string option \<Rightarrow> int"
  peerCmdId :: "string \<Rightarrow> nat \<Rightarrow> string"
  rateLimitDefault :: bool
  setFloodRootDefault :: bool
  removeAboutToExpireDefault :: bool
  kSuccessResponse :: string
  splitPrefixes :: "string \<Rightarrow> string list"
  keyPrefixMatcher :: "string list \<Rightarrow> string \<Rightarrow> bool"
  pushOrder :: "int list \<Rightarrow> nat list"
  popOrder :: "int list \<Rightarrow> nat list"

text \<open>
  \<^verbatim>\<open>KvStoreFilters\<close>: the prefix list, the originator set, and the prefix matcher
  \<^verbatim>\<open>keyPrefixObjList_\<close> built from the prefix list (class \<^verbatim>\<open>KeyPrefix\<close>, not among the
  sources, hence a field holding its \<^verbatim>\<open>keyMatch\<close>).
\<close>

record KvStoreFilters =
  keyPrefixList :: "string list"
  originatorIds :: "string set"
  keyPrefixObjList :: "string \<Rightarrow> bool"

definition keyMatch :: "KvStoreFilters \<Rightarrow> string \<Rightarrow> Value \<Rightarrow> bool" where
  "keyMatch f key value =
     (if keyPrefixList f = [] \<and> originatorIds f = {} then True
      else if keyPrefixList f \<noteq> [] \<and> keyPrefixObjList f key then True
      else if originatorIds f \<noteq> {} \<and> originatorId value \<in> originatorIds f then True
      else False)"

subsection \<open>\<^verbatim>\<open>std::string::compare\<close>\<close>

text \<open>
  The C++ standard fixes only the sign of \<^verbatim>\<open>a.compare(b)\<close>. The model follows libstdc++:
  \<^verbatim>\<open>traits_type::compare\<close> (a \<^verbatim>\<open>memcmp\<close>, here the difference of the first differing
  bytes read as unsigned) on the common length and, when that is 0, the difference of the
  lengths clamped to the range of \<^verbatim>\<open>int\<close> (\<^verbatim>\<open>_S_compare\<close>).
\<close>

fun traits_compare :: "string \<Rightarrow> string \<Rightarrow> int" where
  "traits_compare (x # xs) (y # ys) =
     (if x = y then traits_compare xs ys else int (of_char x) - int (of_char y))"
| "traits_compare _ _ = 0"

definition S_compare :: "nat \<Rightarrow> nat \<Rightarrow> int" where
  "S_compare n1 n2 =
     (let d = int n1 - int n2 in
      if d > 2147483647 then 2147483647
      else if d < - 2147483648 then - 2147483648
      else d)"

definition string_compare :: "string \<Rightarrow> string \<Rightarrow> int" where
  "string_compare a b =
     (let r = traits_compare a b in
      if r = 0 then S_compare (length a) (length b) else r)"

section \<open>\<^verbatim>\<open>KvStore::mergeKeyValues\<close>\<close>

text \<open>
  Failures of the C++ code are results of the model: dereferencing the end iterator of the
  store (undefined behaviour), dereferencing an empty \<^verbatim>\<open>folly::Optional\<close> (which throws),
  and a failed \<^verbatim>\<open>CHECK\<close> or \<^verbatim>\<open>DCHECK\<close>.
\<close>

datatype error = EndIteratorDeref | OptionalEmpty | CheckFailed

text \<open>
  The block "Check updateAll and updateTtl" of the loop body: the pair
  \<open>(updateAllNeeded, updateTtlNeeded)\<close> after it. \<open>kvStoreIt\<close> is the result of
  \<^verbatim>\<open>kvStore.find(key)\<close>.
\<close>

definition checkUpdateAll ::
  "Value \<Rightarrow> Value option \<Rightarrow> int \<Rightarrow> error + (bool \<times> bool)" where
  "checkUpdateAll value kvStoreIt myVersion =
     (case val value of
        None \<Rightarrow> Inr (False, False)
      | Some newVal \<Rightarrow>
          if version value > myVersion then Inr (True, False)
          else (case kvStoreIt of
                  None \<Rightarrow> Inl EndIteratorDeref
                | Some old \<Rightarrow>
                    if originatorId value > originatorId old then Inr (True, False)
                    else if originatorId value = originatorId old then
                      (case val old of
                         None \<Rightarrow> Inl OptionalEmpty
                       | Some oldVal \<Rightarrow>
                           (let rc = string_compare newVal oldVal in
                            if rc > 0 then Inr (True, False)
                            else if rc = 0 then
                              Inr (False, ttlVersion value > ttlVersion old)
                            else Inr (False, False)))
                    else Inr (False, False)))"

text \<open>The second block, "Check updateTtl", for a record without value.\<close>

definition checkUpdateTtl :: "Value \<Rightarrow> Value option \<Rightarrow> bool" where
  "checkUpdateTtl value kvStoreIt =
     (case kvStoreIt of
        None \<Rightarrow> False
      | Some old \<Rightarrow>
          val value = None \<and> version value = version old \<and>
          originatorId value = originatorId old \<and> ttlVersion value > ttlVersion old)"

text \<open>
  One iteration of the loop over \<^verbatim>\<open>keyVals\<close>, on the pair of the store and the updates
  collected so far.
\<close>

definition mergeKeyValue ::
  "Externals \<Rightarrow> KvStoreFilters option \<Rightarrow> KeyVals \<times> KeyVals \<Rightarrow> string \<times> Value \<Rightarrow>
     error + (KeyVals \<times> KeyVals)" where
  "mergeKeyValue ext filters st kv =
     (let kvStore = fst st; kvUpdates = snd st; key = fst kv; value = snd kv in
      if (case filters of None \<Rightarrow> False | Some f \<Rightarrow> \<not> keyMatch f key value) then Inr st
      else
        let newVersion = version value in
        if ttl value \<noteq> kTtlInfinity ext \<and> ttl value \<le> 0 then Inr st
        else
          let kvStoreIt = map_of kvStore key;
              myVersion = (case kvStoreIt of None \<Rightarrow> 0 | Some old \<Rightarrow> version old) in
          if newVersion < myVersion then Inr st
          else
            (case checkUpdateAll value kvStoreIt myVersion of
               Inl e \<Rightarrow> Inl e
             | Inr (updateAllNeeded, updateTtl1) \<Rightarrow>
                 let updateTtlNeeded = (updateTtl1 \<or> checkUpdateTtl value kvStoreIt) in
                 if \<not> updateAllNeeded \<and> \<not> updateTtlNeeded then Inr st
                 else if updateAllNeeded then
                   (if val value = None then Inl CheckFailed
                    else
                      let newValue =
                            (case hash value of
                               None \<Rightarrow> value\<lparr>hash := Some (generateHash ext (version value)
                                           (originatorId value) (val value))\<rparr>
                             | Some _ \<Rightarrow> value) in
                      Inr (case kvStoreIt of
                             None \<Rightarrow> emplace kvStore key newValue
                           | Some _ \<Rightarrow> assign kvStore key newValue,
                           emplace kvUpdates key value))
                 else
                   (case kvStoreIt of
                      None \<Rightarrow> Inl CheckFailed
                    | Some old \<Rightarrow>
                        Inr (assign kvStore key
                               (old\<lparr>ttl := ttl value, ttlVersion := ttlVersion value\<rparr>),
                             emplace kvUpdates key value))))"

text \<open>The loop. An error ends it, as the exception would.\<close>

fun mergeLoop ::
  "Externals \<Rightarrow> KvStoreFilters option \<Rightarrow> KeyVals \<times> KeyVals \<Rightarrow> KeyVals \<Rightarrow>
     error + (KeyVals \<times> KeyVals)" where
  "mergeLoop ext filters st [] = Inr st"
| "mergeLoop ext filters st (kv # kvs) =
     (case mergeKeyValue ext filters st kv of
        Inl e \<Rightarrow> Inl e
      | Inr st' \<Rightarrow> mergeLoop ext filters st' kvs)"

text \<open>The result is the pair of the store after the call and the returned \<^verbatim>\<open>kvUpdates\<close>.\<close>

definition mergeKeyValues ::
  "Externals \<Rightarrow> KeyVals \<Rightarrow> KeyVals \<Rightarrow> KvStoreFilters option \<Rightarrow>
     error + (KeyVals \<times> KeyVals)" where
  "mergeKeyValues ext kvStore keyVals filters = mergeLoop ext filters (kvStore, []) keyVals"

section \<open>\<^verbatim>\<open>KvStore::compareValues\<close> and \<^verbatim>\<open>KvStore::dumpDifference\<close>\<close>

definition compareValues :: "Value \<Rightarrow> Value \<Rightarrow> int" where
  "compareValues v1 v2 =
     (if version v1 \<noteq> version v2 then (if version v1 > version v2 then 1 else - 1)
      else if originatorId v1 \<noteq> originatorId v2
        then (if originatorId v1 > originatorId v2 then 1 else - 1)
      else if (case (hash v1, hash v2) of (Some h1, Some h2) \<Rightarrow> h1 = h2 | _ \<Rightarrow> False)
        then (if ttlVersion v1 \<noteq> ttlVersion v2
              then (if ttlVersion v1 > ttlVersion v2 then 1 else - 1)
              else 0)
      else (case (val v1, val v2) of
              (Some a, Some b) \<Rightarrow> string_compare a b
            | _ \<Rightarrow> - 2))"

record Publication =
  keyVals :: KeyVals
  expiredKeys :: "string list"
  nodeIds :: "string list option"
  tobeUpdatedKeys :: "string list option"
  floodRootId :: "string option"

definition emptyPublication :: Publication where
  "emptyPublication =
     \<lparr>keyVals = [], expiredKeys = [], nodeIds = None, tobeUpdatedKeys = None,
      floodRootId = None\<rparr>"

text \<open>
  One iteration of the loop over \<^verbatim>\<open>allKeys\<close>; \<open>tbu\<close> is the vector
  \<^verbatim>\<open>thriftPub.tobeUpdatedKeys\<close>, \<open>kvs\<close> is \<^verbatim>\<open>thriftPub.keyVals\<close>.
\<close>

definition dumpDifferenceKey ::
  "KeyVals \<Rightarrow> KeyVals \<Rightarrow> KeyVals \<times> string list \<Rightarrow> string \<Rightarrow> KeyVals \<times> string list" where
  "dumpDifferenceKey myKeyVal reqKeyVal acc key =
     (let kvs = fst acc; tbu = snd acc in
      case map_of myKeyVal key of
        None \<Rightarrow> (kvs, tbu @ [key])
      | Some myVal \<Rightarrow>
          (case map_of reqKeyVal key of
             None \<Rightarrow> (emplace kvs key myVal, tbu)
           | Some reqVal \<Rightarrow>
               let rc = compareValues myVal reqVal;
                   kvs1 = (if rc = 1 \<or> rc = - 2 then emplace kvs key myVal else kvs);
                   tbu1 = (if rc = - 1 \<or> rc = - 2 then tbu @ [key] else tbu)
               in (kvs1, tbu1)))"

text \<open>
  \<^verbatim>\<open>allKeys\<close> is an \<^verbatim>\<open>unordered_set\<close> filled with the keys of both maps: a list of
  these keys without repetition.
\<close>

definition dumpDifference :: "KeyVals \<Rightarrow> KeyVals \<Rightarrow> Publication" where
  "dumpDifference myKeyVal reqKeyVal =
     (let allKeys = remdups (map fst myKeyVal @ map fst reqKeyVal);
          r = foldl (dumpDifferenceKey myKeyVal reqKeyVal) ([], []) allKeys
      in emptyPublication\<lparr>keyVals := fst r, tobeUpdatedKeys := Some (snd r)\<rparr>)"


section \<open>Requests, replies and the state of a \<^verbatim>\<open>KvStore\<close>\<close>

text \<open>
  The thrift request types, with the fields the code reads. Fields that share a name with a
  field of \<^verbatim>\<open>Publication\<close> or of the store carry a prefix (\<open>setKeyVals\<close> is
  \<^verbatim>\<open>KeySetParams::keyVals\<close>, \<open>newPeers\<close> is \<^verbatim>\<open>PeerAddParams::peers\<close>, and so on). The
  content of a DUAL message is left open.
\<close>

datatype Command =
  KEY_SET | KEY_GET | KEY_DUMP | HASH_DUMP | COUNTERS_GET | PEER_ADD | PEER_DEL | PEER_DUMP
  | DUAL | FLOOD_TOPO_SET | FLOOD_TOPO_GET | OTHER_COMMAND

record KeySetParams =
  setKeyVals :: KeyVals
  solicitResponse :: bool
  setNodeIds :: "string list option"
  setFloodRootId :: "string option"

record KeyGetParams =
  keys :: "string list"

record KeyDumpParams =
  prefix :: string
  dumpOriginatorIds :: "string set"
  keyValHashes :: "KeyVals option"

record PeerSpec =
  cmdUrl :: string
  supportFloodOptimization :: bool

record PeerAddParams =
  newPeers :: "(string \<times> PeerSpec) list"

record PeerDelParams =
  peerNames :: "string list"

typedecl DualMessage

record DualMessages =
  messages :: "DualMessage list"

record FloodTopoSetParams =
  rootId :: string
  srcId :: string
  setChild :: bool
  allRoots :: "bool option"

record KvStoreRequest =
  cmd :: Command
  keySetParams :: "KeySetParams option"
  keyGetParams :: "KeyGetParams option"
  keyDumpParams :: "KeyDumpParams option"
  peerAddParams :: "PeerAddParams option"
  peerDelParams :: "PeerDelParams option"
  dualMessages :: "DualMessages option"
  floodTopoSetParams :: "FloodTopoSetParams option"

definition emptyRequest :: "Command \<Rightarrow> KvStoreRequest" where
  "emptyRequest c =
     \<lparr>cmd = c, keySetParams = None, keyGetParams = None, keyDumpParams = None,
      peerAddParams = None, peerDelParams = None, dualMessages = None,
      floodTopoSetParams = None\<rparr>"

text \<open>
  The reply of \<^verbatim>\<open>processRequestMsg\<close> is a \<^verbatim>\<open>folly::Expected<fbzmq::Message, fbzmq::Error>\<close>:
  \<open>Unexpected\<close> is \<^verbatim>\<open>folly::makeUnexpected(fbzmq::Error())\<close>, \<open>EmptyMessage\<close> is
  \<^verbatim>\<open>fbzmq::Message()\<close>. The serialised counters and spanning-tree infos are not detailed.
\<close>

datatype Message =
  EmptyMessage
  | StringMessage string
  | PublicationMessage Publication
  | PeerCmdReplyMessage "(string \<times> PeerSpec) list"
  | CountersMessage
  | SptInfosMessage

datatype Reply = Unexpected | Expected Message

text \<open>
  An instant of \<^verbatim>\<open>std::chrono::steady_clock\<close>, and the duration between two instants, is a
  count of nanoseconds held in a signed 64-bit integer (libstdc++). The model keeps the
  counts as integers and writes out the wrap-around where the code adds or subtracts them:
  a signed overflow, which the C++ standard leaves undefined and the compiled code performs
  modulo \<open>2^64\<close>. The sum \<^verbatim>\<open>time_point + milliseconds(n)\<close> converts \<open>n\<close> to nanoseconds first;
  \<^verbatim>\<open>duration_cast<milliseconds>\<close> divides by \<open>10^6\<close> and rounds towards zero.
\<close>

definition wrap64 :: "int \<Rightarrow> int" where
  "wrap64 x = (x + 9223372036854775808) mod 18446744073709551616 - 9223372036854775808"

definition plusMilliseconds :: "int \<Rightarrow> int \<Rightarrow> int" where
  \<comment> \<open>\<^verbatim>\<open>t + std::chrono::milliseconds(n)\<close>\<close>
  "plusMilliseconds t n = wrap64 (t + wrap64 (n * 1000000))"

definition millisecondsBetween :: "int \<Rightarrow> int \<Rightarrow> int" where
  \<comment> \<open>\<^verbatim>\<open>duration_cast<milliseconds>(t1 - t0).count()\<close>\<close>
  "millisecondsBetween t1 t0 =
     (let d = wrap64 (t1 - t0) in
      if d < 0 then - ((- d) div 1000000) else d div 1000000)"

text \<open>
  Modelled from the spec: the TTL queue entry \<open>(expiry_instant, key, version, originator,
  ttl_version)\<close> and the queue ordered by \<open>expiry_instant\<close>, a min-heap; their declarations
  (\<^verbatim>\<open>TtlCountdownQueueEntry\<close>, \<^verbatim>\<open>TtlCountdownQueue\<close> in \<^verbatim>\<open>KvStore.h\<close>) are not among the
  sources. The queue is the list of its entries in the order in which a loop over the
  queue visits them. \<^verbatim>\<open>top\<close> is the first entry of least expiry time. Where \<^verbatim>\<open>push\<close> puts
  the new entry in that order, and in which order \<^verbatim>\<open>pop\<close> leaves the remaining entries, is
  the business of the heap and not known here. The model has a parameter for each,
  \<open>pushOrder\<close> and \<open>popOrder\<close> of the externals: from the expiry times of the entries, which
  are what a heap compares (the new entry last for a \<^verbatim>\<open>push\<close>), they give the positions of
  the entries in their new order. \<open>arranged\<close> puts the entries in that order; an answer that
  is not a permutation of the positions is ignored.
\<close>

record TtlCountdownQueueEntry =
  expiryTime :: int
  key :: string
  entryVersion :: int
  entryTtlVersion :: int
  entryOriginatorId :: string

fun queueTop :: "TtlCountdownQueueEntry list \<Rightarrow> TtlCountdownQueueEntry option" where
  "queueTop [] = None"
| "queueTop (e # es) =
     (case queueTop es of
        None \<Rightarrow> Some e
      | Some m \<Rightarrow> if expiryTime e \<le> expiryTime m then Some e else Some m)"

definition arranged ::
  "(int list \<Rightarrow> nat list) \<Rightarrow> TtlCountdownQueueEntry list \<Rightarrow> TtlCountdownQueueEntry list" where
  "arranged order q =
     (let p = order (map expiryTime q) in
      if mset p = mset [0..<length q] then map (\<lambda>i. q ! i) p else q)"

text \<open>
  The base class \<^verbatim>\<open>DualNode\<close> (\<^verbatim>\<open>openr/dual\<close>, not among the sources) is a component
  \<open>dual\<close> of the state, of any type, with the operations that \<^verbatim>\<open>KvStore.cpp\<close> calls. Its
  callbacks into \<^verbatim>\<open>KvStore\<close> (\<^verbatim>\<open>sendDualMessages\<close>, \<^verbatim>\<open>processNexthopChange\<close>) send messages
  and enqueue peers for a sync; they do not reach the store and are left out.
\<close>

record 'd DualNodeOps =
  getSptRootId :: "'d \<Rightarrow> string option"
  getSptPeers :: "'d \<Rightarrow> string option \<Rightarrow> string set"
  processDualMessages :: "'d \<Rightarrow> DualMessages \<Rightarrow> 'd"
  peerUp :: "'d \<Rightarrow> string \<Rightarrow> nat \<Rightarrow> 'd"
  peerDown :: "'d \<Rightarrow> string \<Rightarrow> 'd"
  dualRoots :: "'d \<Rightarrow> string list"
  hasDual :: "'d \<Rightarrow> string \<Rightarrow> bool"
  addChild :: "'d \<Rightarrow> string \<Rightarrow> string \<Rightarrow> 'd"
  removeChild :: "'d \<Rightarrow> string \<Rightarrow> string \<Rightarrow> 'd"

text \<open>
  The members of \<^verbatim>\<open>KvStore\<close> (without the trailing underscore of the source). \<open>tData\<close>
  keeps, for every statistic, the values given to \<^verbatim>\<open>addStatValue\<close>: a counter exported
  as \<^verbatim>\<open>COUNT\<close> is the number of these values. The sockets are logs of what was sent:
  \<open>pubSent\<close> for the local and the global publisher socket (the same message goes to
  both), \<open>peerSent\<close> for \<^verbatim>\<open>sendMessageToPeer\<close>, with the destination socket identity.
  Send errors, the byte counters that need a serialised message, the log samples and the
  timers are outside the model. \<open>hasFloodLimiter\<close> says whether \<^verbatim>\<open>floodLimiter_\<close> is set.
\<close>

record 'd KvStore =
  nodeId :: string
  filters :: "KvStoreFilters option"
  ttlDecr :: int
  enableFloodOptimization :: bool
  useFloodOptimization :: bool
  hasFloodLimiter :: bool
  kvStore :: KeyVals
  ttlCountdownQueue :: "TtlCountdownQueueEntry list"
  tData :: "string \<Rightarrow> int list"
  publicationBuffer :: "(string option \<times> string list) list"
  peers :: "(string \<times> (PeerSpec \<times> string)) list"
  peersToSyncWith :: "string list"
  peerAddCounter :: nat
  dual :: 'd
  pubSent :: "Publication list"
  peerSent :: "(string \<times> KvStoreRequest) list"

definition addStatValue :: "'d KvStore \<Rightarrow> string \<Rightarrow> int \<Rightarrow> 'd KvStore" where
  "addStatValue st name x = st\<lparr>tData := (tData st)(name := tData st name @ [x])\<rparr>"

definition sendMessageToPeer :: "'d KvStore \<Rightarrow> string \<Rightarrow> KvStoreRequest \<Rightarrow> 'd KvStore" where
  "sendMessageToPeer st peerSocketId request =
     st\<lparr>peerSent := peerSent st @ [(peerSocketId, request)]\<rparr>"

section \<open>TTL countdown, dumps and TTL of outgoing publications\<close>

text \<open>
  \<^verbatim>\<open>updateTtlCountdownQueue\<close>: one queue entry for every key of the publication whose TTL is
  finite, due \<open>ttl\<close> milliseconds from now. The parameter \<open>now\<close> is the reading of the steady
  clock; all readings within one handler are the same instant.
\<close>

definition pushTtlEntry ::
  "Externals \<Rightarrow> int \<Rightarrow> TtlCountdownQueueEntry list \<Rightarrow> string \<times> Value \<Rightarrow>
     TtlCountdownQueueEntry list" where
  "pushTtlEntry ext now q kv =
     (if ttl (snd kv) \<noteq> kTtlInfinity ext
      then arranged (pushOrder ext)
             (q @ [\<lparr>expiryTime = plusMilliseconds now (ttl (snd kv)), key = fst kv,
                    entryVersion = version (snd kv), entryTtlVersion = ttlVersion (snd kv),
                    entryOriginatorId = originatorId (snd kv)\<rparr>])
      else q)"

definition updateTtlCountdownQueue ::
  "Externals \<Rightarrow> int \<Rightarrow> 'd KvStore \<Rightarrow> Publication \<Rightarrow> 'd KvStore" where
  "updateTtlCountdownQueue ext now st pub =
     st\<lparr>ttlCountdownQueue := foldl (pushTtlEntry ext now) (ttlCountdownQueue st) (keyVals pub)\<rparr>"

definition getKeyVals :: "'d KvStore \<Rightarrow> string list \<Rightarrow> Publication" where
  "getKeyVals st ks =
     emptyPublication\<lparr>keyVals :=
       foldl (\<lambda>kvs k. case map_of (kvStore st) k of None \<Rightarrow> kvs | Some v \<Rightarrow> assign kvs k v)
         [] ks\<rparr>"

definition dumpAllWithFilters :: "'d KvStore \<Rightarrow> KvStoreFilters \<Rightarrow> Publication" where
  "dumpAllWithFilters st kvFilters =
     emptyPublication\<lparr>keyVals :=
       foldl (\<lambda>kvs kv. if \<not> keyMatch kvFilters (fst kv) (snd kv) then kvs
                        else assign kvs (fst kv) (snd kv))
         [] (kvStore st)\<rparr>"

text \<open>
  \<^verbatim>\<open>dumpHashWithFilters\<close>: the record of the dump is default-constructed by
  \<^verbatim>\<open>operator[]\<close>, then five fields are copied; \<^verbatim>\<open>value\<close> stays absent. The \<^verbatim>\<open>DCHECK\<close> is
  a result of the model.
\<close>

definition dumpHashEntry :: "KvStoreFilters \<Rightarrow> error + KeyVals \<Rightarrow> string \<times> Value \<Rightarrow> error + KeyVals" where
  "dumpHashEntry kvFilters acc kv =
     (case acc of
        Inl e \<Rightarrow> Inl e
      | Inr kvs \<Rightarrow>
          if \<not> keyMatch kvFilters (fst kv) (snd kv) then Inr kvs
          else if hash (snd kv) = None then Inl CheckFailed
          else Inr (assign kvs (fst kv)
                 \<lparr>version = version (snd kv), originatorId = originatorId (snd kv),
                  val = None, ttl = ttl (snd kv), ttlVersion = ttlVersion (snd kv),
                  hash = hash (snd kv)\<rparr>))"

definition dumpHashWithFilters :: "'d KvStore \<Rightarrow> KvStoreFilters \<Rightarrow> error + Publication" where
  "dumpHashWithFilters st kvFilters =
     (case foldl (dumpHashEntry kvFilters) (Inr []) (kvStore st) of
        Inl e \<Rightarrow> Inl e
      | Inr kvs \<Rightarrow> Inr (emptyPublication\<lparr>keyVals := kvs\<rparr>))"

text \<open>
  \<^verbatim>\<open>updatePublicationTtl\<close>: one iteration of the loop over the countdown queue, on the
  \<^verbatim>\<open>keyVals\<close> of the publication; \<open>decr\<close> is \<^verbatim>\<open>ttlDecr_\<close>, \<open>rae\<close> is
  \<^verbatim>\<open>removeAboutToExpire\<close>. \<open>timeLeft\<close>, \<open>decr\<close> and \<^verbatim>\<open>kTtlThreshold\<close> are counts of
  milliseconds.
\<close>

definition updateTtlEntry ::
  "Externals \<Rightarrow> int \<Rightarrow> int \<Rightarrow> bool \<Rightarrow> KeyVals \<Rightarrow> TtlCountdownQueueEntry \<Rightarrow> KeyVals" where
  "updateTtlEntry ext now decr rae kvs qE =
     (case map_of kvs (key qE) of
        None \<Rightarrow> kvs
      | Some v \<Rightarrow>
          if version v \<noteq> entryVersion qE \<or> originatorId v \<noteq> entryOriginatorId qE \<or>
             ttlVersion v \<noteq> entryTtlVersion qE
          then kvs
          else
            let timeLeft = millisecondsBetween (expiryTime qE) now in
            if timeLeft \<le> decr then erase kvs (key qE)
            else if rae \<and> timeLeft < kTtlThreshold ext then erase kvs (key qE)
            else assign kvs (key qE) (v\<lparr>ttl := timeLeft - decr\<rparr>))"

definition updatePublicationTtl ::
  "Externals \<Rightarrow> int \<Rightarrow> 'd KvStore \<Rightarrow> Publication \<Rightarrow> bool \<Rightarrow> Publication" where
  "updatePublicationTtl ext now st pub rae =
     pub\<lparr>keyVals :=
       foldl (updateTtlEntry ext now (ttlDecr st) rae) (keyVals pub) (ttlCountdownQueue st)\<rparr>"

section \<open>Flooding\<close>

definition bufferKey ::
  "(string option \<times> string list) list \<Rightarrow> string option \<Rightarrow> string \<Rightarrow>
     (string option \<times> string list) list" where
  \<comment> \<open>\<^verbatim>\<open>publicationBuffer_[root].emplace(k)\<close>\<close>
  "bufferKey buf root k =
     (case map_of buf root of
        None \<Rightarrow> buf @ [(root, [k])]
      | Some ks \<Rightarrow> assign buf root (if k \<in> set ks then ks else ks @ [k]))"

definition bufferPublication :: "'d KvStore \<Rightarrow> Publication \<Rightarrow> 'd KvStore" where
  "bufferPublication st pub =
     (let st1 = addStatValue st ''kvstore.rate_limit_suppress'' 1;
          st2 = addStatValue st1 ''kvstore.rate_limit_keys'' (int (length (keyVals pub)));
          buf1 = foldl (\<lambda>b kv. bufferKey b (floodRootId pub) (fst kv))
                   (publicationBuffer st2) (keyVals pub);
          buf2 = foldl (\<lambda>b k. bufferKey b (floodRootId pub) k) buf1 (expiredKeys pub)
      in st2\<lparr>publicationBuffer := buf2\<rparr>)"

definition getFloodPeers :: "'d DualNodeOps \<Rightarrow> 'd KvStore \<Rightarrow> string option \<Rightarrow> string list" where
  "getFloodPeers ops st root =
     (let sptPeers = getSptPeers ops (dual st) root;
          floodToAll = (\<not> enableFloodOptimization st \<or> \<not> useFloodOptimization st \<or>
                        sptPeers = {})
      in map fst (filter (\<lambda>p. floodToAll \<or> fst p \<in> sptPeers \<or>
                               \<not> supportFloodOptimization (fst (snd p))) (peers st)))"

text \<open>
  The loop of \<^verbatim>\<open>floodPublication\<close> over the flood peers. \<^verbatim>\<open>peers_.at(peer)\<close> cannot fail,
  since the flood peers are taken from \<^verbatim>\<open>peers_\<close>.
\<close>

definition floodToPeer ::
  "string option \<Rightarrow> Publication \<Rightarrow> KvStoreRequest \<Rightarrow> 'd KvStore \<Rightarrow> string \<Rightarrow> 'd KvStore" where
  "floodToPeer senderId pub floodRequest st peer =
     (if senderId = Some peer then st
      else
        let st1 = addStatValue st ''kvstore.sent_publications'' 1;
            st2 = addStatValue st1 ''kvstore.sent_key_vals'' (int (length (keyVals pub)))
        in case map_of (peers st2) peer of
             None \<Rightarrow> st2
           | Some p \<Rightarrow> sendMessageToPeer st2 (snd p) floodRequest)"

text \<open>
  \<^verbatim>\<open>floodPublication\<close> after its two tests of the rate limiter and of the buffer: from
  the call of \<^verbatim>\<open>updatePublicationTtl\<close> to the end.
\<close>

definition floodDirect ::
  "Externals \<Rightarrow> 'd DualNodeOps \<Rightarrow> int \<Rightarrow> 'd KvStore \<Rightarrow> Publication \<Rightarrow> bool \<Rightarrow> 'd KvStore" where
  "floodDirect ext ops now st pub0 setFloodRoot =
     (let pub1 = updatePublicationTtl ext now st pub0 True in
      if keyVals pub1 = [] \<and> expiredKeys pub1 = [] then st
      else
        let senderId = (case nodeIds pub1 of
                          None \<Rightarrow> None
                        | Some ids \<Rightarrow> if ids \<noteq> [] then Some (last ids) else None);
            pub2 = pub1\<lparr>nodeIds :=
                     Some ((case nodeIds pub1 of None \<Rightarrow> [] | Some ids \<Rightarrow> ids) @ [nodeId st])\<rparr>;
            st1 = st\<lparr>pubSent := pubSent st @ [pub2]\<rparr>
        in
          if keyVals pub2 = [] then st1
          else
            let pub3 = (if setFloodRoot \<and> senderId = None
                        then pub2\<lparr>floodRootId := getSptRootId ops (dual st1)\<rparr> else pub2);
                params = \<lparr>setKeyVals = keyVals pub3, solicitResponse = False,
                          setNodeIds = nodeIds pub3, setFloodRootId = floodRootId pub3\<rparr>;
                floodRequest = (emptyRequest KEY_SET)\<lparr>keySetParams := Some params\<rparr>
            in foldl (floodToPeer senderId pub3 floodRequest) st1
                 (getFloodPeers ops st1 (setFloodRootId params)))"

text \<open>
  \<^verbatim>\<open>floodBufferedUpdates\<close>: one publication per root of the buffer, the values read from
  the store. It calls \<^verbatim>\<open>floodPublication(pub, false, false)\<close> after it has cleared the
  buffer: there the rate limiter is not asked and the buffer is empty, which leaves the
  rest of \<^verbatim>\<open>floodPublication\<close>, that is \<^const>\<open>floodDirect\<close>.
\<close>

definition bufferedPublication :: "'d KvStore \<Rightarrow> string option \<times> string list \<Rightarrow> Publication" where
  "bufferedPublication st b =
     foldl (\<lambda>pub k. case map_of (kvStore st) k of
                      Some v \<Rightarrow> pub\<lparr>keyVals := emplace (keyVals pub) k v\<rparr>
                    | None \<Rightarrow> pub\<lparr>expiredKeys := expiredKeys pub @ [k]\<rparr>)
       (emptyPublication\<lparr>floodRootId := fst b\<rparr>) (snd b)"

definition floodBufferedUpdates ::
  "Externals \<Rightarrow> 'd DualNodeOps \<Rightarrow> int \<Rightarrow> 'd KvStore \<Rightarrow> 'd KvStore" where
  "floodBufferedUpdates ext ops now st =
     (if publicationBuffer st = [] then st
      else
        let publications = map (bufferedPublication st) (publicationBuffer st);
            st1 = st\<lparr>publicationBuffer := []\<rparr>
        in foldl (\<lambda>s pub. floodDirect ext ops now s pub False) st1 publications)"

text \<open>
  \<^verbatim>\<open>floodPublication\<close>; \<open>consume\<close> is the answer of \<^verbatim>\<open>floodLimiter_->consume(1)\<close>, should it
  be asked.
\<close>

definition floodPublication ::
  "Externals \<Rightarrow> 'd DualNodeOps \<Rightarrow> int \<Rightarrow> bool \<Rightarrow> 'd KvStore \<Rightarrow> Publication \<Rightarrow> bool \<Rightarrow> bool \<Rightarrow>
     'd KvStore" where
  "floodPublication ext ops now consume st pub rateLimit setFloodRoot =
     (if hasFloodLimiter st \<and> rateLimit \<and> \<not> consume then bufferPublication st pub
      else if publicationBuffer st \<noteq> []
        then floodBufferedUpdates ext ops now (bufferPublication st pub)
      else floodDirect ext ops now st pub setFloodRoot)"

definition finalizeFullSync ::
  "'d DualNodeOps \<Rightarrow> 'd KvStore \<Rightarrow> string list \<Rightarrow> string \<Rightarrow> 'd KvStore" where
  "finalizeFullSync ops st ks senderId =
     (if ks = [] then st
      else
        let kvs = foldl (\<lambda>m k. case map_of (kvStore st) k of
                                 None \<Rightarrow> m | Some v \<Rightarrow> emplace m k v) [] ks;
            params = \<lparr>setKeyVals = kvs, solicitResponse = False, setNodeIds = None,
                      setFloodRootId = getSptRootId ops (dual st)\<rparr>;
            updateRequest = (emptyRequest KEY_SET)\<lparr>keySetParams := Some params\<rparr>
        in sendMessageToPeer st senderId updateRequest)"

section \<open>\<^verbatim>\<open>KvStore::mergePublication\<close>\<close>

definition mergePublication ::
  "Externals \<Rightarrow> 'd DualNodeOps \<Rightarrow> int \<Rightarrow> bool \<Rightarrow> 'd KvStore \<Rightarrow> Publication \<Rightarrow> string option \<Rightarrow>
     error + ('d KvStore \<times> nat)" where
  "mergePublication ext ops now consume st rcvdPublication senderId =
     (let st1 = addStatValue st ''kvstore.received_publications'' 1;
          st2 = addStatValue st1 ''kvstore.received_key_vals''
                  (int (length (keyVals rcvdPublication)));
          needFinalizeFullSync =
            (senderId \<noteq> None \<and>
             (case tobeUpdatedKeys rcvdPublication of None \<Rightarrow> False | Some ks \<Rightarrow> ks \<noteq> []))
      in
        if keyVals rcvdPublication = [] \<and> \<not> needFinalizeFullSync then Inr (st2, 0)
        else if (case nodeIds rcvdPublication of
                   None \<Rightarrow> False | Some ids \<Rightarrow> nodeId st2 \<in> set ids)
          then Inr (addStatValue st2 ''kvstore.looped_publications'' 1, 0)
        else
          (case mergeKeyValues ext (kvStore st2) (keyVals rcvdPublication) (filters st2) of
             Inl e \<Rightarrow> Inl e
           | Inr (kvStore', kvUpdates) \<Rightarrow>
               let delta0 = emptyPublication\<lparr>keyVals := kvUpdates,
                              floodRootId := floodRootId rcvdPublication\<rparr>;
                   kvUpdateCnt = length (keyVals delta0);
                   st3 = addStatValue (st2\<lparr>kvStore := kvStore'\<rparr>) ''kvstore.updated_key_vals''
                           (int kvUpdateCnt);
                   deltaPublication =
                     (if nodeIds rcvdPublication \<noteq> None
                      then delta0\<lparr>nodeIds := nodeIds rcvdPublication\<rparr> else delta0);
                   st4 = updateTtlCountdownQueue ext now st3 deltaPublication;
                   st5 = (if keyVals deltaPublication \<noteq> []
                          then floodPublication ext ops now consume st4 deltaPublication
                                 (rateLimitDefault ext) (setFloodRootDefault ext)
                          else addStatValue st4 ''kvstore.received_redundant_publications'' 1);
                   st6 = (if needFinalizeFullSync
                          then finalizeFullSync ops st5
                                 (case tobeUpdatedKeys rcvdPublication of
                                    None \<Rightarrow> [] | Some ks \<Rightarrow> ks)
                                 (case senderId of None \<Rightarrow> [] | Some s \<Rightarrow> s)
                          else st5)
               in Inr (st6, kvUpdateCnt)))"

section \<open>\<^verbatim>\<open>KvStore::cleanupTtlCountdownQueue\<close>\<close>

text \<open>
  The body of the \<^verbatim>\<open>while\<close> loop for the entry \<open>topE\<close> at the top of the queue: the
  store and the vector \<^verbatim>\<open>expiredKeys\<close> after it.
\<close>

definition expireEntry ::
  "KeyVals \<times> string list \<Rightarrow> TtlCountdownQueueEntry \<Rightarrow> KeyVals \<times> string list" where
  "expireEntry acc topE =
     (case map_of (fst acc) (key topE) of
        None \<Rightarrow> acc
      | Some v \<Rightarrow>
          if version v = entryVersion topE \<and> originatorId v = entryOriginatorId topE \<and>
             ttlVersion v = entryTtlVersion topE
          then (erase (fst acc) (key topE), snd acc @ [key topE])
          else acc)"

text \<open>
  The loop: while the queue is not empty and its top is due, handle the top and pop it.
\<close>

function cleanupLoop ::
  "Externals \<Rightarrow> int \<Rightarrow> KeyVals \<times> string list \<Rightarrow> TtlCountdownQueueEntry list \<Rightarrow>
     (KeyVals \<times> string list) \<times> TtlCountdownQueueEntry list" where
  "cleanupLoop ext now acc q =
     (case queueTop q of
        None \<Rightarrow> (acc, q)
      | Some topE \<Rightarrow>
          if expiryTime topE > now then (acc, q)
          else cleanupLoop ext now (expireEntry acc topE)
                 (arranged (popOrder ext) (remove1 topE q)))"
  by pat_completeness auto
termination
proof (relation "measure (\<lambda>(ext, now, acc, q). length q)")
  show "wf (measure (\<lambda>(ext, now, acc, q). length q))" by simp
next
  fix ext :: Externals and now :: int and acc :: "KeyVals \<times> string list" and q topE
  assume t: "queueTop q = Some topE" and "\<not> now < expiryTime topE"
  have "\<And>e. queueTop q = Some e \<Longrightarrow> e \<in> set q"
    by (induction q) (auto split: option.splits if_splits)
  with t have m: "topE \<in> set q" by blast
  then have p: "0 < length q" by (cases q) auto
  have "length (arranged (popOrder ext) (remove1 topE q)) = length (remove1 topE q)"
  proof (cases "mset (popOrder ext (map expiryTime (remove1 topE q))) =
                mset [0..<length (remove1 topE q)]")
    case True
    from mset_eq_length[OF True] show ?thesis
      by (simp add: arranged_def Let_def True del: mset_upt)
  next
    case False
    then show ?thesis by (simp add: arranged_def Let_def del: mset_upt)
  qed
  with m p show "((ext, now, expireEntry acc topE, arranged (popOrder ext) (remove1 topE q)),
                (ext, now, acc, q))
               \<in> measure (\<lambda>(ext, now, acc, q). length q)"
    by (simp add: length_remove1)
qed

declare cleanupLoop.simps [simp del]

definition cleanupTtlCountdownQueue ::
  "Externals \<Rightarrow> 'd DualNodeOps \<Rightarrow> int \<Rightarrow> bool \<Rightarrow> 'd KvStore \<Rightarrow> 'd KvStore" where
  "cleanupTtlCountdownQueue ext ops now consume st =
     (let r = cleanupLoop ext now (kvStore st, []) (ttlCountdownQueue st);
          st1 = st\<lparr>kvStore := fst (fst r), ttlCountdownQueue := snd r\<rparr>;
          expired = snd (fst r)
      in
        if expired = [] then st1
        else
          let st2 = addStatValue st1 ''kvstore.expired_key_vals'' (int (length expired));
              expiredKeysPub = emptyPublication\<lparr>expiredKeys := expired\<rparr>
          in floodPublication ext ops now consume st2 expiredKeysPub
               (rateLimitDefault ext) (setFloodRootDefault ext))"

section \<open>Peers and the flood topology\<close>

definition sendTopoSetCmd ::
  "'d KvStore \<Rightarrow> string \<Rightarrow> string \<Rightarrow> bool \<Rightarrow> bool \<Rightarrow> 'd KvStore" where
  "sendTopoSetCmd st root peerName child allRts =
     (case map_of (peers st) peerName of
        None \<Rightarrow> st
      | Some p \<Rightarrow>
          sendMessageToPeer st (snd p)
            ((emptyRequest FLOOD_TOPO_SET)\<lparr>floodTopoSetParams :=
               Some \<lparr>rootId = root, srcId = nodeId st, setChild = child,
                     allRoots = (if allRts then Some allRts else None)\<rparr>\<rparr>))"

text \<open>
  \<^verbatim>\<open>addPeers\<close>, one peer: the registry, the message of \<^verbatim>\<open>unsetChildAll\<close> and the set of
  peers to sync with. Connecting and disconnecting the socket are outside the model.
\<close>

definition addPeer :: "Externals \<Rightarrow> 'd KvStore \<Rightarrow> string \<times> PeerSpec \<Rightarrow> 'd KvStore" where
  "addPeer ext st kv =
     (let peerName = fst kv; newPeerSpec = snd kv;
          newPeerCmdId = peerCmdId ext peerName (peerAddCounter st);
          found = map_of (peers st) peerName;
          isNewPeer = (case found of
                         None \<Rightarrow> True
                       | Some p \<Rightarrow> cmdUrl (fst p) = cmdUrl newPeerSpec);
          st1 = (case found of
                   None \<Rightarrow> st\<lparr>peers := emplace (peers st) peerName (newPeerSpec, newPeerCmdId)\<rparr>
                 | Some p \<Rightarrow>
                     st\<lparr>peers := assign (peers st) peerName
                          (newPeerSpec,
                           if cmdUrl (fst p) \<noteq> cmdUrl newPeerSpec then newPeerCmdId
                           else snd p)\<rparr>);
          st2 = (if isNewPeer \<and> supportFloodOptimization newPeerSpec
                 then sendTopoSetCmd st1 [] peerName False True else st1)
      in st2\<lparr>peersToSyncWith :=
               (if peerName \<in> set (peersToSyncWith st2) then peersToSyncWith st2
                else peersToSyncWith st2 @ [peerName])\<rparr>)"

definition addPeers ::
  "Externals \<Rightarrow> 'd DualNodeOps \<Rightarrow> 'd KvStore \<Rightarrow> (string \<times> PeerSpec) list \<Rightarrow> 'd KvStore" where
  "addPeers ext ops st ps =
     (let st1 = st\<lparr>peerAddCounter := peerAddCounter st + 1\<rparr>;
          dualPeersToAdd = map fst (filter (\<lambda>kv. supportFloodOptimization (snd kv)) ps);
          st2 = foldl (addPeer ext) st1 ps
      in if enableFloodOptimization st2
         then st2\<lparr>dual := foldl (\<lambda>d peer. peerUp ops d peer 1) (dual st2) dualPeersToAdd\<rparr>
         else st2)"

definition delPeer :: "'d KvStore \<times> string list \<Rightarrow> string \<Rightarrow> 'd KvStore \<times> string list" where
  "delPeer acc peerName =
     (let st = fst acc; dualPeersToRemove = snd acc in
      case map_of (peers st) peerName of
        None \<Rightarrow> acc
      | Some p \<Rightarrow>
          (st\<lparr>peersToSyncWith := removeAll peerName (peersToSyncWith st),
              peers := erase (peers st) peerName\<rparr>,
           if supportFloodOptimization (fst p) then dualPeersToRemove @ [peerName]
           else dualPeersToRemove))"

definition delPeers :: "'d DualNodeOps \<Rightarrow> 'd KvStore \<Rightarrow> string list \<Rightarrow> 'd KvStore" where
  "delPeers ops st ps =
     (let r = foldl delPeer (st, []) ps; st1 = fst r in
      if enableFloodOptimization st1
      then st1\<lparr>dual := foldl (peerDown ops) (dual st1) (snd r)\<rparr>
      else st1)"

definition dumpPeers :: "'d KvStore \<Rightarrow> (string \<times> PeerSpec) list" where
  "dumpPeers st = map (\<lambda>kv. (fst kv, fst (snd kv))) (peers st)"

definition processFloodTopoSet ::
  "'d DualNodeOps \<Rightarrow> 'd KvStore \<Rightarrow> FloodTopoSetParams \<Rightarrow> 'd KvStore" where
  "processFloodTopoSet ops st setParams =
     (if allRoots setParams = Some True \<and> \<not> setChild setParams
      then st\<lparr>dual := foldl (\<lambda>d root. removeChild ops d root (srcId setParams))
                         (dual st) (dualRoots ops (dual st))\<rparr>
      else if \<not> hasDual ops (dual st) (rootId setParams) then st
      else if setChild setParams
        then st\<lparr>dual := addChild ops (dual st) (rootId setParams) (srcId setParams)\<rparr>
      else st\<lparr>dual := removeChild ops (dual st) (rootId setParams) (srcId setParams)\<rparr>)"

section \<open>\<^verbatim>\<open>KvStore::processRequestMsg\<close>\<close>

text \<open>
  The argument is the result of \<^verbatim>\<open>readThriftObj\<close>: \<open>None\<close> when the message cannot be
  decoded.
\<close>

definition updateHash :: "Externals \<Rightarrow> string \<times> Value \<Rightarrow> string \<times> Value" where
  "updateHash ext kv =
     (if val (snd kv) \<noteq> None
      then (fst kv, (snd kv)\<lparr>hash := Some (generateHash ext (version (snd kv))
                                  (originatorId (snd kv)) (val (snd kv)))\<rparr>)
      else kv)"

definition processRequestMsg ::
  "Externals \<Rightarrow> 'd DualNodeOps \<Rightarrow> int \<Rightarrow> bool \<Rightarrow> 'd KvStore \<Rightarrow> KvStoreRequest option \<Rightarrow>
     error + ('d KvStore \<times> Reply)" where
  "processRequestMsg ext ops now consume st maybeThriftReq =
     (case maybeThriftReq of
        None \<Rightarrow> Inr (st, Unexpected)
      | Some thriftReq \<Rightarrow>
     (case cmd thriftReq of
        KEY_SET \<Rightarrow>
          (case keySetParams thriftReq of
             None \<Rightarrow> Inr (st, Unexpected)
           | Some keySetParamsVal \<Rightarrow>
               let st1 = addStatValue st ''kvstore.cmd_key_set'' 1 in
               if setKeyVals keySetParamsVal = [] then Inr (st1, Unexpected)
               else
                 let rcvdPublication =
                       emptyPublication\<lparr>keyVals := map (updateHash ext) (setKeyVals keySetParamsVal),
                         nodeIds := setNodeIds keySetParamsVal,
                         floodRootId := setFloodRootId keySetParamsVal\<rparr>
                 in case mergePublication ext ops now consume st1 rcvdPublication None of
                      Inl e \<Rightarrow> Inl e
                    | Inr r \<Rightarrow>
                        if solicitResponse keySetParamsVal
                        then Inr (fst r, Expected (StringMessage (kSuccessResponse ext)))
                        else Inr (fst r, Expected EmptyMessage))
      | KEY_GET \<Rightarrow>
          (case keyGetParams thriftReq of
             None \<Rightarrow> Inr (st, Unexpected)
           | Some p \<Rightarrow>
               let st1 = addStatValue st ''kvstore.cmd_key_get'' 1;
                   thriftPub = updatePublicationTtl ext now st1 (getKeyVals st1 (keys p))
                                 (removeAboutToExpireDefault ext)
               in Inr (st1, Expected (PublicationMessage thriftPub)))
      | KEY_DUMP \<Rightarrow>
          (case keyDumpParams thriftReq of
             None \<Rightarrow> Inr (st, Unexpected)
           | Some keyDumpParamsVal \<Rightarrow>
               let st1 = addStatValue st ''kvstore.cmd_key_dump'' 1;
                   keyPrefixList = splitPrefixes ext (prefix keyDumpParamsVal);
                   keyPrefixMatch =
                     \<lparr>keyPrefixList = keyPrefixList,
                      originatorIds = dumpOriginatorIds keyDumpParamsVal,
                      keyPrefixObjList = keyPrefixMatcher ext keyPrefixList\<rparr>;
                   pub1 = dumpAllWithFilters st1 keyPrefixMatch;
                   pub2 = (case keyValHashes keyDumpParamsVal of
                             None \<Rightarrow> pub1
                           | Some hashes \<Rightarrow> dumpDifference (keyVals pub1) hashes);
                   pub3 = updatePublicationTtl ext now st1 pub2 (removeAboutToExpireDefault ext);
                   thriftPub = pub3\<lparr>floodRootId := getSptRootId ops (dual st1)\<rparr>
               in Inr (st1, Expected (PublicationMessage thriftPub)))
      | HASH_DUMP \<Rightarrow>
          (case keyDumpParams thriftReq of
             None \<Rightarrow> Inr (st, Unexpected)
           | Some p \<Rightarrow>
               let st1 = addStatValue st ''kvstore.cmd_hash_dump'' 1;
                   keyPrefixList = splitPrefixes ext (prefix p);
                   kvFilters =
                     \<lparr>keyPrefixList = keyPrefixList, originatorIds = {},
                      keyPrefixObjList = keyPrefixMatcher ext keyPrefixList\<rparr>
               in case dumpHashWithFilters st1 kvFilters of
                    Inl e \<Rightarrow> Inl e
                  | Inr hashDump \<Rightarrow>
                      Inr (st1, Expected (PublicationMessage
                             (updatePublicationTtl ext now st1 hashDump
                                (removeAboutToExpireDefault ext)))))
      | COUNTERS_GET \<Rightarrow> Inr (st, Expected CountersMessage)
      | PEER_ADD \<Rightarrow>
          (let st1 = addStatValue st ''kvstore.cmd_peer_add'' 1 in
           case peerAddParams thriftReq of
             None \<Rightarrow> Inr (st1, Unexpected)
           | Some p \<Rightarrow>
               if newPeers p = [] then Inr (st1, Unexpected)
               else
                 let st2 = addPeers ext ops st1 (newPeers p)
                 in Inr (st2, Expected (PeerCmdReplyMessage (dumpPeers st2))))
      | PEER_DEL \<Rightarrow>
          (let st1 = addStatValue st ''kvstore.cmd_per_del'' 1 in
           case peerDelParams thriftReq of
             None \<Rightarrow> Inr (st1, Unexpected)
           | Some p \<Rightarrow>
               if peerNames p = [] then Inr (st1, Unexpected)
               else
                 let st2 = delPeers ops st1 (peerNames p)
                 in Inr (st2, Expected (PeerCmdReplyMessage (dumpPeers st2))))
      | PEER_DUMP \<Rightarrow>
          (let st1 = addStatValue st ''kvstore.cmd_peer_dump'' 1
           in Inr (st1, Expected (PeerCmdReplyMessage (dumpPeers st1))))
      | DUAL \<Rightarrow>
          (case dualMessages thriftReq of
             None \<Rightarrow> Inr (st, Expected EmptyMessage)
           | Some msgs \<Rightarrow>
               if messages msgs = [] then Inr (st, Expected EmptyMessage)
               else
                 let st1 = addStatValue st ''kvstore.received_dual_messages'' 1
                 in Inr (st1\<lparr>dual := processDualMessages ops (dual st1) msgs\<rparr>,
                         Expected EmptyMessage))
      | FLOOD_TOPO_SET \<Rightarrow>
          (case floodTopoSetParams thriftReq of
             None \<Rightarrow> Inr (st, Expected EmptyMessage)
           | Some p \<Rightarrow> Inr (processFloodTopoSet ops st p, Expected EmptyMessage))
      | FLOOD_TOPO_GET \<Rightarrow> Inr (st, Expected SptInfosMessage)
      | OTHER_COMMAND \<Rightarrow> Inr (st, Unexpected)))"

text \<open>
  \<^verbatim>\<open>processSyncResponse\<close>, for a response that decodes to the publication \<open>syncPub\<close>
  received from the peer with socket identity \<open>requestId\<close>. Its two statistics (bytes
  received, duration of the sync) are outside the model.
\<close>

definition processSyncResponse ::
  "Externals \<Rightarrow> 'd DualNodeOps \<Rightarrow> int \<Rightarrow> bool \<Rightarrow> 'd KvStore \<Rightarrow> Publication \<Rightarrow> string \<Rightarrow>
     error + 'd KvStore" where
  "processSyncResponse ext ops now consume st syncPub requestId =
     (case mergePublication ext ops now consume st syncPub (Some requestId) of
        Inl e \<Rightarrow> Inl e
      | Inr r \<Rightarrow> Inr (fst r))"

section \<open>The merge decision as the specification words it\<close>

text \<open>
  Section 4.1 of the specification, written down from its words and not from the code.
  Steps 1 and 2: the filter accepts the record, and its TTL is infinite or positive.
\<close>

datatype action = Skip | UpdateAll | UpdateTtlOnly

definition filterAccepts :: "KvStoreFilters option \<Rightarrow> string \<Rightarrow> Value \<Rightarrow> bool" where
  "filterAccepts flt k v = (case flt of None \<Rightarrow> True | Some f \<Rightarrow> keyMatch f k v)"

definition ttlValid :: "Externals \<Rightarrow> Value \<Rightarrow> bool" where
  "ttlValid ext v = (ttl v = kTtlInfinity ext \<or> 0 < ttl v)"

text \<open>
  Steps 3 to 6, as claim C1 puts them: with the version of an absent record taken as 0,
  a lower version is skipped; a record with a value replaces the stored one when its
  version is higher, or the versions are equal and its originator is greater, or these are
  equal and its value is greater; a record refreshes the TTL when version and originator
  are equal, its value is equal or absent, and its ttlVersion is higher; anything else is
  skipped.
\<close>

definition spec_decide :: "Value option \<Rightarrow> Value \<Rightarrow> action" where
  "spec_decide v_old v_new =
     (let old_version = (case v_old of None \<Rightarrow> 0 | Some old \<Rightarrow> version old) in
      if version v_new < old_version then Skip
      else if val v_new \<noteq> None \<and>
              (version v_new > old_version \<or>
               (case v_old of None \<Rightarrow> False
                | Some old \<Rightarrow>
                    version v_new = version old \<and>
                    (originatorId v_new > originatorId old \<or>
                     originatorId v_new = originatorId old \<and>
                     (case (val v_new, val old) of
                        (Some a, Some b) \<Rightarrow> a > b | _ \<Rightarrow> False))))
      then UpdateAll
      else if (case v_old of None \<Rightarrow> False
               | Some old \<Rightarrow>
                   version v_new = version old \<and> originatorId v_new = originatorId old \<and>
                   (val v_new = val old \<or> val v_new = None) \<and>
                   ttlVersion v_new > ttlVersion old)
      then UpdateTtlOnly
      else Skip)"

text \<open>
  Step 7 and the TTL refresh: the record stored for the key after the decision. A
  replacing record gets the generated hash when it has none.
\<close>

definition withHash :: "Externals \<Rightarrow> Value \<Rightarrow> Value" where
  "withHash ext v =
     (if hash v = None
      then v\<lparr>hash := Some (generateHash ext (version v) (originatorId v) (val v))\<rparr> else v)"

definition spec_apply :: "Externals \<Rightarrow> Value option \<Rightarrow> Value \<Rightarrow> Value option" where
  "spec_apply ext v_old v_new =
     (case spec_decide v_old v_new of
        Skip \<Rightarrow> v_old
      | UpdateAll \<Rightarrow> Some (withHash ext v_new)
      | UpdateTtlOnly \<Rightarrow>
          map_option (\<lambda>old. old\<lparr>ttl := ttl v_new, ttlVersion := ttlVersion v_new\<rparr>) v_old)"

text \<open>
  All records of a store carry a value. Then, for a record that may be filtered out or
  have an invalid TTL: what is stored for its key afterwards, and whether the key is in
  the returned updates.
\<close>

definition valuesPresent :: "KeyVals \<Rightarrow> bool" where
  "valuesPresent s = (\<forall>k v. map_of s k = Some v \<longrightarrow> val v \<noteq> None)"

definition storedAfter ::
  "Externals \<Rightarrow> KvStoreFilters option \<Rightarrow> Value option \<Rightarrow> string \<Rightarrow> Value \<Rightarrow> Value option" where
  "storedAfter ext flt v_old k v_new =
     (if filterAccepts flt k v_new \<and> ttlValid ext v_new
      then spec_apply ext v_old v_new else v_old)"

definition announced ::
  "Externals \<Rightarrow> KvStoreFilters option \<Rightarrow> Value option \<Rightarrow> string \<Rightarrow> Value \<Rightarrow> bool" where
  "announced ext flt v_old k v_new =
     (filterAccepts flt k v_new \<and> ttlValid ext v_new \<and> spec_decide v_old v_new \<noteq> Skip)"

text \<open>
  The inputs on which the block "Check updateAll" of \<^verbatim>\<open>mergeKeyValues\<close> does not return,
  read off the code: the record passes the filter and the TTL check and carries a value,
  and either the key is new and the version of the record is 0 (the end iterator of the
  store is dereferenced), or the stored record has the version and the originator of the
  record and no value (its empty optional is dereferenced).
\<close>

definition mergeFails ::
  "Externals \<Rightarrow> KvStoreFilters option \<Rightarrow> Value option \<Rightarrow> string \<Rightarrow> Value \<Rightarrow> bool" where
  "mergeFails ext flt v_old k v_new =
     (filterAccepts flt k v_new \<and> ttlValid ext v_new \<and> val v_new \<noteq> None \<and>
      (case v_old of
         None \<Rightarrow> version v_new = 0
       | Some old \<Rightarrow>
           version v_new = version old \<and> originatorId v_new = originatorId old \<and>
           val old = None))"


section \<open>The order on records and merging in sequence\<close>

text \<open>
  The order of section 4.1 of the specification on \<open>(version, originator_id, value,
  ttl_version)\<close>, lexicographic; an absent value is below every value.
\<close>

definition valLess :: "string option \<Rightarrow> string option \<Rightarrow> bool" where
  "valLess a b =
     (case (a, b) of
        (Some x, Some y) \<Rightarrow> x < y
      | (None, Some y) \<Rightarrow> True
      | _ \<Rightarrow> False)"

definition spec_leq :: "Value \<Rightarrow> Value \<Rightarrow> bool" where
  "spec_leq a b =
     (version a < version b \<or>
      version a = version b \<and>
      (originatorId a < originatorId b \<or>
       originatorId a = originatorId b \<and>
       (valLess (val a) (val b) \<or>
        val a = val b \<and> ttlVersion a \<le> ttlVersion b)))"

text \<open>The fields that the order looks at.\<close>

definition orderFields :: "Value \<Rightarrow> int \<times> string \<times> string option \<times> int" where
  "orderFields v = (version v, originatorId v, val v, ttlVersion v)"

text \<open>
  A record \<open>r\<close> without value is a TTL refresh of the record \<open>v\<close>: it has the version and the
  originator of \<open>v\<close> and a higher ttlVersion.
\<close>

definition refreshOf :: "Value \<Rightarrow> Value \<Rightarrow> bool" where
  "refreshOf r v =
     (val r = None \<and> val v \<noteq> None \<and> version r = version v \<and>
      originatorId r = originatorId v \<and> ttlVersion v < ttlVersion r)"

text \<open>
  The record \<open>r\<close>, merged after the record \<open>v\<close> into a store that was empty, refreshes the TTL
  of \<open>v\<close>: \<open>v\<close> was stored (it passes the filter and the TTL check, carries a value and has
  a positive version), and \<open>r\<close> passes the filter and the TTL check and is a TTL refresh of
  \<open>v\<close>.
\<close>

definition refreshes ::
  "Externals \<Rightarrow> KvStoreFilters option \<Rightarrow> string \<Rightarrow> Value \<Rightarrow> Value \<Rightarrow> bool" where
  "refreshes ext flt k r v =
     (refreshOf r v \<and> filterAccepts flt k r \<and> ttlValid ext r \<and>
      filterAccepts flt k v \<and> ttlValid ext v \<and> 0 < version v)"

text \<open>A hash field is consistent when it is absent or is the generated hash of its record.\<close>

definition hashConsistent :: "Externals \<Rightarrow> Value \<Rightarrow> bool" where
  "hashConsistent ext v =
     (case hash v of
        None \<Rightarrow> True
      | Some h \<Rightarrow> h = generateHash ext (version v) (originatorId v) (val v))"

text \<open>
  Merging \<open>v1\<close> and then \<open>v2\<close>, two records for the key \<open>k\<close>, into the empty store: the
  store after the two calls of \<^verbatim>\<open>mergeKeyValues\<close>.
\<close>

definition mergeInOrder ::
  "Externals \<Rightarrow> KvStoreFilters option \<Rightarrow> string \<Rightarrow> Value \<Rightarrow> Value \<Rightarrow> error + KeyVals" where
  "mergeInOrder ext flt k v1 v2 =
     (case mergeKeyValues ext [] [(k, v1)] flt of
        Inl e \<Rightarrow> Inl e
      | Inr r1 \<Rightarrow>
          (case mergeKeyValues ext (fst r1) [(k, v2)] flt of
             Inl e \<Rightarrow> Inl e
           | Inr r2 \<Rightarrow> Inr (fst r2)))"


section \<open>What \<^verbatim>\<open>dumpDifference\<close> decides for one key\<close>

text \<open>
  For a key \<open>k\<close>: the record that \<^verbatim>\<open>dumpDifference\<close> puts into \<^verbatim>\<open>keyVals\<close>, if any, and
  whether it puts \<open>k\<close> into \<^verbatim>\<open>tobeUpdatedKeys\<close>, read off the body of its loop.
\<close>

definition keptByDiff :: "KeyVals \<Rightarrow> KeyVals \<Rightarrow> string \<Rightarrow> Value option" where
  "keptByDiff my req k =
     (case map_of my k of
        None \<Rightarrow> None
      | Some mv \<Rightarrow>
          (case map_of req k of
             None \<Rightarrow> Some mv
           | Some rv \<Rightarrow>
               if compareValues mv rv = 1 \<or> compareValues mv rv = - 2 then Some mv else None))"

definition wantedByDiff :: "KeyVals \<Rightarrow> KeyVals \<Rightarrow> string \<Rightarrow> bool" where
  "wantedByDiff my req k =
     (case map_of my k of
        None \<Rightarrow> True
      | Some mv \<Rightarrow>
          (case map_of req k of
             None \<Rightarrow> False
           | Some rv \<Rightarrow> compareValues mv rv = - 1 \<or> compareValues mv rv = - 2))"


section \<open>Queue entries that match a record\<close>

text \<open>
  An entry of the countdown queue matches the record \<open>v\<close> of the key \<open>k\<close> when it has the
  key and the same version, originator and ttlVersion. \<open>dropsKey\<close> is the condition under
  which \<^verbatim>\<open>updatePublicationTtl\<close> erases the key of a matching entry: the time left until
  the entry expires, in whole milliseconds, is at most the decrement, or
  \<^verbatim>\<open>removeAboutToExpire\<close> is set and the time left is below \<^verbatim>\<open>kTtlThreshold\<close>.
\<close>

definition entryMatches :: "TtlCountdownQueueEntry \<Rightarrow> string \<Rightarrow> Value \<Rightarrow> bool" where
  "entryMatches qE k v =
     (key qE = k \<and> version v = entryVersion qE \<and> originatorId v = entryOriginatorId qE \<and>
      ttlVersion v = entryTtlVersion qE)"

definition dropsKey :: "Externals \<Rightarrow> int \<Rightarrow> int \<Rightarrow> bool \<Rightarrow> TtlCountdownQueueEntry \<Rightarrow> bool" where
  "dropsKey ext now decr rae qE =
     (millisecondsBetween (expiryTime qE) now \<le> decr \<or>
      rae \<and> millisecondsBetween (expiryTime qE) now < kTtlThreshold ext)"

text \<open>
  The store holds, for the key of the entry, a record that the entry matches; and: some
  entry of the queue \<open>q\<close> that is due at \<open>now\<close> has the key \<open>k\<close> and matches the record that
  the store \<open>s\<close> holds for \<open>k\<close>.
\<close>

definition storeMatches :: "KeyVals \<Rightarrow> TtlCountdownQueueEntry \<Rightarrow> bool" where
  "storeMatches s e =
     (case map_of s (key e) of None \<Rightarrow> False | Some v \<Rightarrow> entryMatches e (key e) v)"

definition expiredKey :: "int \<Rightarrow> KeyVals \<Rightarrow> TtlCountdownQueueEntry list \<Rightarrow> string \<Rightarrow> bool" where
  "expiredKey now s q k =
     (\<exists>e \<in> set q. expiryTime e \<le> now \<and> key e = k \<and> storeMatches s e)"


section \<open>The part of the state that flooding does not touch\<close>

definition sameStore :: "'d KvStore \<Rightarrow> 'd KvStore \<Rightarrow> bool" where
  "sameStore st st' =
     (kvStore st' = kvStore st \<and> ttlCountdownQueue st' = ttlCountdownQueue st \<and>
      nodeId st' = nodeId st \<and> filters st' = filters st \<and> ttlDecr st' = ttlDecr st)"

section \<open>What a firing of the TTL timer publishes\<close>





section \<open>Requests, events and the invariant of the store\<close>

text \<open>
  \<^verbatim>\<open>needFinalizeFullSync\<close> of \<^verbatim>\<open>mergePublication\<close>: the publication comes from a peer and asks
  for keys.
\<close>

definition needsFinalize :: "Publication \<Rightarrow> string option \<Rightarrow> bool" where
  "needsFinalize pub sender =
     (sender \<noteq> None \<and> (case tobeUpdatedKeys pub of None \<Rightarrow> False | Some ks \<Rightarrow> ks \<noteq> []))"

text \<open>
  A malformed request, in the words of the specification: the parameter record that the
  command requires is missing, or the list it requires is empty.
\<close>

definition malformed :: "KvStoreRequest \<Rightarrow> bool" where
  "malformed req =
     (case cmd req of
        KEY_SET \<Rightarrow> (case keySetParams req of None \<Rightarrow> True | Some p \<Rightarrow> setKeyVals p = [])
      | PEER_ADD \<Rightarrow> (case peerAddParams req of None \<Rightarrow> True | Some p \<Rightarrow> newPeers p = [])
      | PEER_DEL \<Rightarrow> (case peerDelParams req of None \<Rightarrow> True | Some p \<Rightarrow> peerNames p = [])
      | DUAL \<Rightarrow> (case dualMessages req of None \<Rightarrow> True | Some m \<Rightarrow> messages m = [])
      | KEY_GET \<Rightarrow> keyGetParams req = None
      | KEY_DUMP \<Rightarrow> keyDumpParams req = None
      | HASH_DUMP \<Rightarrow> keyDumpParams req = None
      | FLOOD_TOPO_SET \<Rightarrow> floodTopoSetParams req = None
      | _ \<Rightarrow> False)"


text \<open>Every record held in the store has a value and a hash.\<close>

definition storeInv :: "KeyVals \<Rightarrow> bool" where
  "storeInv s = (\<forall>p \<in> set s. val (snd p) \<noteq> None \<and> hash (snd p) \<noteq> None)"

text \<open>
  The handlers that touch the store or flood, as the event loop runs them, one event after
  the other (section 5 of the specification): a request on the command socket, a sync
  response from a peer, the TTL countdown timer and the timer of pending publications.
  Every event carries the reading of the clock and the answer of the rate limiter.
\<close>

datatype event =
  RequestMsg int bool "KvStoreRequest option"
  | SyncResponse int bool Publication string
  | TtlCountdownTimer int bool
  | PendingPublicationTimer int bool

definition handleEvent ::
  "Externals \<Rightarrow> 'd DualNodeOps \<Rightarrow> 'd KvStore \<Rightarrow> event \<Rightarrow> error + 'd KvStore" where
  "handleEvent ext ops st ev =
     (case ev of
        RequestMsg now consume req \<Rightarrow>
          (case processRequestMsg ext ops now consume st req of
             Inl e \<Rightarrow> Inl e
           | Inr r \<Rightarrow> Inr (fst r))
      | SyncResponse now consume syncPub requestId \<Rightarrow>
          processSyncResponse ext ops now consume st syncPub requestId
      | TtlCountdownTimer now consume \<Rightarrow>
          Inr (cleanupTtlCountdownQueue ext ops now consume st)
      | PendingPublicationTimer now consume \<Rightarrow>
          Inr (if \<not> consume then st else floodBufferedUpdates ext ops now st))"

fun run :: "Externals \<Rightarrow> 'd DualNodeOps \<Rightarrow> 'd KvStore \<Rightarrow> event list \<Rightarrow> error + 'd KvStore" where
  "run ext ops st [] = Inr st"
| "run ext ops st (ev # evs) =
     (case handleEvent ext ops st ev of
        Inl e \<Rightarrow> Inl e
      | Inr st' \<Rightarrow> run ext ops st' evs)"


section \<open>Concrete inputs\<close>

text \<open>
  Values for the parts that are not among the sources, for the examples: \<^verbatim>\<open>kTtlInfinity\<close>
  as the least 32-bit integer, a threshold of 500 ms, a constant hash function, default
  arguments that rate-limit, set the flood root and do not remove keys about to expire,
  and a queue that is visited in the order of insertion. Then a record without hash, and a
  \<^verbatim>\<open>DualNode\<close> that knows no root.
\<close>

definition ext0 :: Externals where
  "ext0 = \<lparr>kTtlInfinity = - 2147483648, kTtlThreshold = 500,
           generateHash = (\<lambda>ver orig x. 0), peerCmdId = (\<lambda>name c. name),
           rateLimitDefault = True, setFloodRootDefault = True,
           removeAboutToExpireDefault = False, kSuccessResponse = ''OK'',
           splitPrefixes = (\<lambda>s. []), keyPrefixMatcher = (\<lambda>ps k. False),
           pushOrder = (\<lambda>ts. [0..<length ts]), popOrder = (\<lambda>ts. [0..<length ts])\<rparr>"

definition mkValue :: "int \<Rightarrow> string \<Rightarrow> string option \<Rightarrow> int \<Rightarrow> int \<Rightarrow> Value" where
  "mkValue ver orig x t tv =
     \<lparr>version = ver, originatorId = orig, val = x, ttl = t, ttlVersion = tv, hash = None\<rparr>"


definition ops0 :: "unit DualNodeOps" where
  "ops0 = \<lparr>getSptRootId = (\<lambda>d. None), getSptPeers = (\<lambda>d root. {}),
           processDualMessages = (\<lambda>d msgs. d), peerUp = (\<lambda>d peer cost. d),
           peerDown = (\<lambda>d peer. d), dualRoots = (\<lambda>d. []), hasDual = (\<lambda>d root. False),
           addChild = (\<lambda>d root child. d), removeChild = (\<lambda>d root child. d)\<rparr>"

text \<open>A node \<open>n1\<close> with an empty store, no peers, no rate limiter and a TTL decrement of 1 ms.\<close>

definition st0 :: "unit KvStore" where
  "st0 = \<lparr>nodeId = ''n1'', filters = None, ttlDecr = 1, enableFloodOptimization = False,
          useFloodOptimization = False, hasFloodLimiter = False, kvStore = [],
          ttlCountdownQueue = [], tData = (\<lambda>name. []), publicationBuffer = [], peers = [],
          peersToSyncWith = [], peerAddCounter = 0, dual = (), pubSent = [], peerSent = []\<rparr>"



text \<open>A KEY_SET request for one record.\<close>

definition keySetExample :: KvStoreRequest where
  "keySetExample =
     (emptyRequest KEY_SET)\<lparr>keySetParams :=
        Some \<lparr>setKeyVals = [(''x'', mkValue 1 ''a'' (Some ''v'') 5000 1)],
              solicitResponse = True, setNodeIds = None, setFloodRootId = None\<rparr>\<rparr>"


section \<open>Association lists\<close>

lemma map_of_emplace:
  "map_of (emplace m k v) = (case map_of m k of None \<Rightarrow> (map_of m)(k \<mapsto> v) | Some _ \<Rightarrow> map_of m)"
proof (cases "map_of m k")
  case None
  have "map_of (m @ [(k, v)]) x = ((map_of m)(k \<mapsto> v)) x" for x
    using None by (auto simp: map_add_def split: option.splits)
  then show ?thesis using None by (auto simp: emplace_def)
next
  case (Some a)
  then show ?thesis by (simp add: emplace_def)
qed

lemma map_of_emplace_absent:
  "map_of m k = None \<Longrightarrow> map_of (emplace m k v) = (map_of m)(k \<mapsto> v)"
  by (simp add: map_of_emplace)

lemma map_of_assign: "map_of (assign m k v) = (map_of m)(k \<mapsto> v)"
  by (induction m) auto

lemma map_of_erase: "map_of (erase m k) = (map_of m)(k := None)"
  by (induction m) (auto simp: erase_def)

section \<open>The sign of \<open>string_compare\<close>\<close>

lemma char_diff_sign:
  "(0 < int (of_char x) - int (of_char y)) = (y < x)"
  "(int (of_char x) - int (of_char y) < 0) = (x < y)"
  "(int (of_char x) - int (of_char y) = 0) = (x = y)"
  unfolding less_char_def
  by (simp_all only: diff_gt_0_iff_gt of_nat_less_iff diff_less_0_iff_less right_minus_eq
        of_nat_eq_iff of_char_eq_iff)

lemma traits_compare_pos: "0 < traits_compare a b \<Longrightarrow> b < a"
  by (induction a b rule: traits_compare.induct)
     (simp_all only: traits_compare.simps char_diff_sign Cons_less_Cons split: if_splits, auto)

lemma traits_compare_neg: "traits_compare a b < 0 \<Longrightarrow> a < b"
  by (induction a b rule: traits_compare.induct)
     (simp_all only: traits_compare.simps char_diff_sign Cons_less_Cons split: if_splits, auto)

lemma traits_compare_zero:
  "traits_compare a b = 0 \<Longrightarrow>
     (a < b \<longleftrightarrow> length a < length b) \<and> (b < a \<longleftrightarrow> length b < length a) \<and>
     (a = b \<longleftrightarrow> length a = length b)"
proof (induction a arbitrary: b)
  case Nil
  then show ?case by (cases b) auto
next
  case (Cons x xs)
  show ?case
  proof (cases b)
    case Nil
    then show ?thesis by auto
  next
    case (Cons y ys)
    have "x = y" and "traits_compare xs ys = 0"
      using Cons.prems Cons
      by (simp_all only: traits_compare.simps char_diff_sign split: if_splits)
    then show ?thesis using Cons.IH[of ys] Cons by auto
  qed
qed

lemma S_compare_sign:
  "(0 < S_compare m n \<longleftrightarrow> n < m) \<and> (S_compare m n = 0 \<longleftrightarrow> m = n) \<and>
   (S_compare m n < 0 \<longleftrightarrow> m < n)"
  by (auto simp: S_compare_def Let_def)

lemma string_compare_sign:
  "(0 < string_compare a b \<longleftrightarrow> b < a) \<and> (string_compare a b = 0 \<longleftrightarrow> a = b) \<and>
   (string_compare a b < 0 \<longleftrightarrow> a < b)"
proof -
  consider (z) "traits_compare a b = 0" | (p) "0 < traits_compare a b"
    | (n) "traits_compare a b < 0"
    by linarith
  then show ?thesis
  proof cases
    case z
    then show ?thesis
      using traits_compare_zero[OF z] by (simp add: string_compare_def S_compare_sign)
  next
    case p
    then have "b < a" by (rule traits_compare_pos)
    then have "\<not> a < b" "a \<noteq> b" by auto
    then show ?thesis using p \<open>b < a\<close> by (simp add: string_compare_def)
  next
    case n
    then have "a < b" by (rule traits_compare_neg)
    then have "\<not> b < a" "a \<noteq> b" by auto
    then show ?thesis using n \<open>a < b\<close> by (simp add: string_compare_def)
  qed
qed

section \<open>\<^verbatim>\<open>mergeKeyValues\<close> against the specified decision\<close>

lemma mergeKeyValue_rejected:
  "\<not> (filterAccepts flt k v \<and> ttlValid ext v) \<Longrightarrow>
   mergeKeyValue ext flt st (k, v) = Inr st"
  by (auto simp: mergeKeyValue_def filterAccepts_def ttlValid_def Let_def split: option.splits)

lemma checkUpdateAll_noval:
  "val v = None \<Longrightarrow> checkUpdateAll v it mv = Inr (False, False)"
  by (simp add: checkUpdateAll_def)

lemma checkUpdateAll_newer:
  "val v = Some a \<Longrightarrow> mv < version v \<Longrightarrow> checkUpdateAll v it mv = Inr (True, False)"
  by (simp add: checkUpdateAll_def)

lemma checkUpdateAll_same:
  "val v = Some a \<Longrightarrow> \<not> mv < version v \<Longrightarrow> val old = Some b \<Longrightarrow>
   checkUpdateAll v (Some old) mv =
     Inr (originatorId old < originatorId v \<or> originatorId v = originatorId old \<and> b < a,
          originatorId v = originatorId old \<and> a = b \<and> ttlVersion old < ttlVersion v)"
  using string_compare_sign[of a b]
  by (auto simp: checkUpdateAll_def Let_def)

lemma checkUpdateAll_end:
  "val v = Some a \<Longrightarrow> \<not> mv < version v \<Longrightarrow> checkUpdateAll v None mv = Inl EndIteratorDeref"
  by (simp add: checkUpdateAll_def)

lemma checkUpdateAll_other:
  "val v = Some a \<Longrightarrow> \<not> mv < version v \<Longrightarrow> originatorId v \<noteq> originatorId old \<Longrightarrow>
   checkUpdateAll v (Some old) mv = Inr (originatorId old < originatorId v, False)"
  by (simp add: checkUpdateAll_def)

lemma checkUpdateAll_empty:
  "val v = Some a \<Longrightarrow> \<not> mv < version v \<Longrightarrow> originatorId v = originatorId old \<Longrightarrow>
   val old = None \<Longrightarrow> checkUpdateAll v (Some old) mv = Inl OptionalEmpty"
  by (simp add: checkUpdateAll_def)

lemma mergeKeyValue_fails:
  assumes "mergeFails ext flt (map_of s k) k v"
  shows "mergeKeyValue ext flt (s, u) (k, v) =
           Inl (if map_of s k = None then EndIteratorDeref else OptionalEmpty)"
proof -
  have pre: "(case flt of None \<Rightarrow> False | Some f \<Rightarrow> \<not> keyMatch f k v) = False"
       "(ttl v \<noteq> kTtlInfinity ext \<and> ttl v \<le> 0) = False"
    using assms by (auto simp: mergeFails_def filterAccepts_def ttlValid_def split: option.splits)
  obtain a where a: "val v = Some a" using assms by (auto simp: mergeFails_def)
  show ?thesis
  proof (cases "map_of s k")
    case None
    then have "version v = 0" using assms by (simp add: mergeFails_def)
    then show ?thesis using None a
      by (simp add: pre Let_def mergeKeyValue_def checkUpdateAll_end)
  next
    case (Some old)
    then have "version v = version old" "originatorId v = originatorId old" "val old = None"
      using assms by (simp_all add: mergeFails_def)
    then show ?thesis using Some a
      by (simp add: pre Let_def mergeKeyValue_def checkUpdateAll_empty)
  qed
qed

lemma mergeKeyValue_accepted:
  assumes "filterAccepts flt k v" "ttlValid ext v"
    and "\<not> mergeFails ext flt (map_of s k) k v"
  shows "\<exists>s'. mergeKeyValue ext flt (s, u) (k, v) =
                 Inr (s', if spec_decide (map_of s k) v = Skip then u else emplace u k v) \<and>
               map_of s' = (map_of s)(k := spec_apply ext (map_of s k) v)"
proof -
  have pre: "(case flt of None \<Rightarrow> False | Some f \<Rightarrow> \<not> keyMatch f k v) = False"
       "(ttl v \<noteq> kTtlInfinity ext \<and> ttl v \<le> 0) = False"
    using assms(1,2) by (auto simp: filterAccepts_def ttlValid_def split: option.splits)
  show ?thesis
  proof (cases "map_of s k")
    case None
    show ?thesis
    proof (cases "val v")
      case N2: None
      show ?thesis using None N2
        by (simp add: pre Let_def mergeKeyValue_def checkUpdateAll_noval checkUpdateTtl_def
              spec_apply_def spec_decide_def fun_upd_idem)
    next
      case (Some a)
      show ?thesis
      proof (cases "0 < version v")
        case True
        then show ?thesis using None Some
          by (simp add: pre Let_def mergeKeyValue_def checkUpdateAll_newer checkUpdateTtl_def
              spec_apply_def spec_decide_def withHash_def fun_upd_idem map_of_emplace
              split: option.splits)
      next
        case False
        have "version v \<noteq> 0" using assms None Some by (simp add: mergeFails_def)
        then have "version v < 0" using False by simp
        then show ?thesis using None Some
          by (simp add: pre Let_def mergeKeyValue_def spec_apply_def spec_decide_def fun_upd_idem)
      qed
    qed
  next
    case (Some old)
    show ?thesis
    proof (cases "val v")
      case None
      then show ?thesis using Some
        by (auto simp: pre Let_def mergeKeyValue_def checkUpdateAll_noval checkUpdateTtl_def
              spec_apply_def spec_decide_def fun_upd_idem map_of_assign)
    next
      case S2: (Some a)
      consider (lt) "version v < version old" | (gt) "version old < version v"
        | (eq) "version v = version old" by linarith
      then show ?thesis
      proof cases
        case lt
        then show ?thesis using Some
          by (simp add: pre Let_def mergeKeyValue_def spec_apply_def spec_decide_def fun_upd_idem)
      next
        case gt
        then show ?thesis using Some S2
          by (simp add: pre Let_def mergeKeyValue_def checkUpdateAll_newer checkUpdateTtl_def
              spec_apply_def spec_decide_def withHash_def fun_upd_idem map_of_assign
              split: option.splits)
      next
        case eq
        show ?thesis
        proof (cases "val old")
          case (Some b)
          then show ?thesis using \<open>map_of s k = Some old\<close> S2 eq
            by (auto simp: pre Let_def mergeKeyValue_def checkUpdateAll_same checkUpdateTtl_def
                spec_apply_def spec_decide_def withHash_def fun_upd_idem map_of_assign
                split: option.splits)
        next
          case None
          have ne: "originatorId v \<noteq> originatorId old"
            using assms \<open>map_of s k = Some old\<close> S2 eq None by (simp add: mergeFails_def)
          show ?thesis using \<open>map_of s k = Some old\<close> S2 eq None ne
            by (auto simp: pre Let_def mergeKeyValue_def checkUpdateAll_other checkUpdateTtl_def
                spec_apply_def spec_decide_def withHash_def fun_upd_idem map_of_assign
                split: option.splits)
        qed
      qed
    qed
  qed
qed

lemma mergeFails_not:
  assumes "\<And>old. v_old = Some old \<Longrightarrow> val old \<noteq> None"
    and "v_old = None \<Longrightarrow> val v \<noteq> None \<Longrightarrow> version v \<noteq> 0"
  shows "\<not> mergeFails ext flt v_old k v"
  using assms by (auto simp: mergeFails_def split: option.splits)

lemma mergeKeyValue_step:
  assumes "\<not> mergeFails ext flt (map_of s k) k v"
  shows "\<exists>s'. mergeKeyValue ext flt (s, u) (k, v) =
                 Inr (s', if announced ext flt (map_of s k) k v then emplace u k v else u) \<and>
               map_of s' = (map_of s)(k := storedAfter ext flt (map_of s k) k v)"
proof (cases "filterAccepts flt k v \<and> ttlValid ext v")
  case True
  then show ?thesis
    using mergeKeyValue_accepted[of flt k v ext s u] assms
    by (auto simp: storedAfter_def announced_def)
next
  case False
  then show ?thesis
    using mergeKeyValue_rejected[of flt k v ext "(s, u)"]
    by (auto simp: storedAfter_def announced_def)
qed

lemma spec_apply_val:
  "v_old = None \<or> (\<exists>old. v_old = Some old \<and> val old \<noteq> None) \<Longrightarrow>
   spec_apply ext v_old v_new = Some r \<Longrightarrow> val r \<noteq> None"
  by (auto simp: spec_apply_def spec_decide_def withHash_def Let_def
           split: action.splits if_splits option.splits)

lemma storedAfter_val:
  "v_old = None \<or> (\<exists>old. v_old = Some old \<and> val old \<noteq> None) \<Longrightarrow>
   storedAfter ext flt v_old k v_new = Some r \<Longrightarrow> val r \<noteq> None"
  using spec_apply_val[of v_old ext v_new r]
  by (auto simp: storedAfter_def split: if_splits)

lemma valuesPresent_step:
  assumes "valuesPresent s"
    and "map_of s' = (map_of s)(k := storedAfter ext flt (map_of s k) k v)"
  shows "valuesPresent s'"
  unfolding valuesPresent_def
proof (intro allI impI)
  fix k' r assume h: "map_of s' k' = Some r"
  show "val r \<noteq> None"
  proof (cases "k' = k")
    case True
    have "map_of s k = None \<or> (\<exists>old. map_of s k = Some old \<and> val old \<noteq> None)"
      using assms(1) by (cases "map_of s k") (auto simp: valuesPresent_def)
    then show ?thesis using h True storedAfter_val assms(2) by auto
  next
    case False
    then show ?thesis using h assms by (auto simp: valuesPresent_def)
  qed
qed

lemma mergeLoop_Inr:
  assumes "distinct (map fst kvs)" "mergeLoop ext flt (s, u) kvs = Inr (s', u')"
  shows "(\<forall>(k, v) \<in> set kvs. \<not> mergeFails ext flt (map_of s k) k v) \<and>
         (\<forall>k. map_of s' k = (case map_of kvs k of None \<Rightarrow> map_of s k
                         | Some v \<Rightarrow> storedAfter ext flt (map_of s k) k v)) \<and>
         (\<forall>k. map_of u' k = (case map_of kvs k of None \<Rightarrow> map_of u k
                         | Some v \<Rightarrow> if announced ext flt (map_of s k) k v
                                     then map_of (emplace u k v) k else map_of u k))"
  using assms
proof (induction kvs arbitrary: s u)
  case Nil
  then show ?case by simp
next
  case (Cons kv kvs)
  obtain k v where kv: "kv = (k, v)" by (cases kv)
  define u1 where "u1 = (if announced ext flt (map_of s k) k v then emplace u k v else u)"
  have nf: "\<not> mergeFails ext flt (map_of s k) k v"
  proof
    assume "mergeFails ext flt (map_of s k) k v"
    from mergeKeyValue_fails[OF this, of u] show False using Cons.prems(2) kv by simp
  qed
  obtain s1 where step: "mergeKeyValue ext flt (s, u) (k, v) = Inr (s1, u1)"
    and s1: "map_of s1 = (map_of s)(k := storedAfter ext flt (map_of s k) k v)"
    using mergeKeyValue_step[OF nf, of u] by (auto simp: u1_def)
  have notin: "k \<notin> fst ` set kvs" and d: "distinct (map fst kvs)"
    using Cons.prems(1) kv by auto
  have rest: "mergeLoop ext flt (s1, u1) kvs = Inr (s', u')"
    using Cons.prems(2) step kv by simp
  from Cons.IH[OF d rest] have
    r: "\<forall>(k', v') \<in> set kvs. \<not> mergeFails ext flt (map_of s1 k') k' v'"
       "\<forall>k'. map_of s' k' = (case map_of kvs k' of None \<Rightarrow> map_of s1 k'
                         | Some v' \<Rightarrow> storedAfter ext flt (map_of s1 k') k' v')"
       "\<forall>k'. map_of u' k' = (case map_of kvs k' of None \<Rightarrow> map_of u1 k'
                         | Some v' \<Rightarrow> if announced ext flt (map_of s1 k') k' v'
                                     then map_of (emplace u1 k' v') k' else map_of u1 k')"
    by blast+
  have mk: "map_of kvs k = None" using notin by (simp add: map_of_eq_None_iff)
  have other: "\<And>k' v'. map_of kvs k' = Some v' \<Longrightarrow> k' \<noteq> k" using mk by auto
  have "\<forall>(k', v') \<in> set (kv # kvs). \<not> mergeFails ext flt (map_of s k') k' v'"
  proof (intro ballI, clarify)
    fix k' v' assume m: "(k', v') \<in> set (kv # kvs)" and f: "mergeFails ext flt (map_of s k') k' v'"
    show False
    proof (cases "(k', v') = (k, v)")
      case True
      then show ?thesis using nf f by simp
    next
      case False
      then have m': "(k', v') \<in> set kvs" using m kv by auto
      then have "k' \<noteq> k" using notin by force
      then have "map_of s1 k' = map_of s k'" using s1 by simp
      then show ?thesis using r(1) m' f by auto
    qed
  qed
  moreover have "\<forall>k'. map_of s' k' = (case map_of (kv # kvs) k' of None \<Rightarrow> map_of s k'
                         | Some v' \<Rightarrow> storedAfter ext flt (map_of s k') k' v')"
    using r(2) mk kv s1 other by (auto split: option.splits)
  moreover have "\<forall>k'. map_of u' k' = (case map_of (kv # kvs) k' of None \<Rightarrow> map_of u k'
                         | Some v' \<Rightarrow> if announced ext flt (map_of s k') k' v'
                                     then map_of (emplace u k' v') k' else map_of u k')"
  proof
    fix k'
    show "map_of u' k' = (case map_of (kv # kvs) k' of None \<Rightarrow> map_of u k'
                         | Some v' \<Rightarrow> if announced ext flt (map_of s k') k' v'
                                     then map_of (emplace u k' v') k' else map_of u k')"
    proof (cases "k' = k")
      case True
      have "map_of u' k = map_of u1 k" using r(3) mk by simp
      then show ?thesis using True kv by (simp add: u1_def)
    next
      case False
      then have e: "map_of u1 k' = map_of u k'" "map_of s1 k' = map_of s k'"
        "\<And>x. map_of (emplace u1 k' x) k' = map_of (emplace u k' x) k'"
        using s1 by (auto simp: u1_def map_of_emplace split: option.splits)
      have "map_of u' k' = (case map_of kvs k' of None \<Rightarrow> map_of u1 k'
                         | Some v' \<Rightarrow> if announced ext flt (map_of s1 k') k' v'
                                     then map_of (emplace u1 k' v') k' else map_of u1 k')"
        using r(3) by blast
      then show ?thesis using False kv by (simp add: e split: option.splits)
    qed
  qed
  ultimately show ?case by blast
qed

lemma mergeLoop_returns:
  assumes "distinct (map fst kvs)" "valuesPresent s"
    and "\<forall>(k, v) \<in> set kvs. map_of s k = None \<and> val v \<noteq> None \<longrightarrow> version v \<noteq> 0"
  shows "\<exists>s' u'. mergeLoop ext flt (s, u) kvs = Inr (s', u') \<and> valuesPresent s'"
  using assms
proof (induction kvs arbitrary: s u)
  case Nil
  then show ?case by simp
next
  case (Cons kv kvs)
  obtain k v where kv: "kv = (k, v)" by (cases kv)
  have nf: "\<not> mergeFails ext flt (map_of s k) k v"
    using Cons.prems(2,3) kv by (intro mergeFails_not) (auto simp: valuesPresent_def)
  obtain s1 u1 where step: "mergeKeyValue ext flt (s, u) (k, v) = Inr (s1, u1)"
    and s1: "map_of s1 = (map_of s)(k := storedAfter ext flt (map_of s k) k v)"
    using mergeKeyValue_step[OF nf, of u] by blast
  have notin: "k \<notin> fst ` set kvs" and d: "distinct (map fst kvs)"
    using Cons.prems(1) kv by auto
  have vp: "valuesPresent s1" using Cons.prems(2) s1 by (rule valuesPresent_step)
  have ver: "\<forall>(k', v') \<in> set kvs. map_of s1 k' = None \<and> val v' \<noteq> None \<longrightarrow> version v' \<noteq> 0"
  proof (intro ballI, clarify)
    fix k' v' y assume m: "(k', v') \<in> set kvs" and n: "map_of s1 k' = None"
      and y: "val v' = Some y" and z: "version v' = 0"
    from m notin have "k' \<noteq> k" by force
    with n s1 have "map_of s k' = None" by simp
    with Cons.prems(3) m y z show False by auto
  qed
  from Cons.IH[OF d vp ver, of u1] show ?case using step kv by simp
qed

lemma mergeLoop_ok:
  assumes "distinct (map fst kvs)"
    and "\<forall>(k, v) \<in> set kvs. \<not> mergeFails ext flt (map_of s k) k v"
  shows "\<exists>s' u'. mergeLoop ext flt (s, u) kvs = Inr (s', u')"
  using assms
proof (induction kvs arbitrary: s u)
  case Nil
  then show ?case by simp
next
  case (Cons kv kvs)
  obtain k v where kv: "kv = (k, v)" by (cases kv)
  have nf: "\<not> mergeFails ext flt (map_of s k) k v"
    using Cons.prems(2) kv by auto
  obtain s1 u1 where step: "mergeKeyValue ext flt (s, u) (k, v) = Inr (s1, u1)"
    and s1: "map_of s1 = (map_of s)(k := storedAfter ext flt (map_of s k) k v)"
    using mergeKeyValue_step[OF nf, of u] by blast
  have notin: "k \<notin> fst ` set kvs" and d: "distinct (map fst kvs)"
    using Cons.prems(1) kv by auto
  have ok: "\<forall>(k', v') \<in> set kvs. \<not> mergeFails ext flt (map_of s1 k') k' v'"
  proof (intro ballI, clarify)
    fix k' v' assume m: "(k', v') \<in> set kvs" and f: "mergeFails ext flt (map_of s1 k') k' v'"
    from m notin have "k' \<noteq> k" by force
    then have "map_of s1 k' = map_of s k'" using s1 by simp
    then show False using Cons.prems(2) m f by auto
  qed
  from Cons.IH[OF d ok, of u1] show ?case using step kv by simp
qed

lemma mergeKeyValues_Inr:
  assumes "distinct (map fst kvs)" "mergeKeyValues ext s kvs flt = Inr (s', u')"
  shows "(\<forall>(k, v) \<in> set kvs. \<not> mergeFails ext flt (map_of s k) k v) \<and>
         (\<forall>k. map_of s' k = (case map_of kvs k of None \<Rightarrow> map_of s k
                         | Some v \<Rightarrow> storedAfter ext flt (map_of s k) k v)) \<and>
         (\<forall>k. map_of u' k = (case map_of kvs k of None \<Rightarrow> None
                         | Some v \<Rightarrow> if announced ext flt (map_of s k) k v
                                     then Some v else None))"
proof -
  have e: "map_of (emplace [] k v) k = Some v" for k :: string and v :: Value
    by (simp add: emplace_def)
  have l: "mergeLoop ext flt (s, []) kvs = Inr (s', u')"
    using assms(2) by (simp add: mergeKeyValues_def)
  note r = mergeLoop_Inr[OF assms(1) l]
  have "map_of u' k = (case map_of kvs k of None \<Rightarrow> None
                         | Some v \<Rightarrow> if announced ext flt (map_of s k) k v
                                     then Some v else None)" for k
    using r[THEN conjunct2, THEN conjunct2, rule_format, of k]
    by (cases "map_of kvs k") (simp_all add: e)
  then show ?thesis using r by blast
qed

lemma mergeKeyValues_result:
  assumes "distinct (map fst kvs)" "valuesPresent s"
    and "\<forall>(k, v) \<in> set kvs. map_of s k = None \<and> val v \<noteq> None \<longrightarrow> version v \<noteq> 0"
  shows "\<exists>s' u'. mergeKeyValues ext s kvs flt = Inr (s', u') \<and> valuesPresent s' \<and>
           (\<forall>k. map_of s' k = (case map_of kvs k of None \<Rightarrow> map_of s k
                         | Some v \<Rightarrow> storedAfter ext flt (map_of s k) k v)) \<and>
           (\<forall>k. map_of u' k = (case map_of kvs k of None \<Rightarrow> None
                         | Some v \<Rightarrow> if announced ext flt (map_of s k) k v
                                     then Some v else None))"
proof -
  obtain s' u' where r: "mergeLoop ext flt (s, []) kvs = Inr (s', u')" "valuesPresent s'"
    using mergeLoop_returns[OF assms, of ext flt "[]"] by blast
  then have m: "mergeKeyValues ext s kvs flt = Inr (s', u')" by (simp add: mergeKeyValues_def)
  from mergeKeyValues_Inr[OF assms(1) m] show ?thesis using m r(2) by blast
qed

lemma mergeKeyValues_returns:
  assumes "distinct (map fst kvs)"
  shows "(\<exists>s' u'. mergeKeyValues ext s kvs flt = Inr (s', u')) \<longleftrightarrow>
         (\<forall>(k, v) \<in> set kvs. \<not> mergeFails ext flt (map_of s k) k v)"
proof
  assume "\<exists>s' u'. mergeKeyValues ext s kvs flt = Inr (s', u')"
  then obtain s' u' where "mergeKeyValues ext s kvs flt = Inr (s', u')" by blast
  from mergeKeyValues_Inr[OF assms this]
  show "\<forall>(k, v) \<in> set kvs. \<not> mergeFails ext flt (map_of s k) k v" by blast
next
  assume "\<forall>(k, v) \<in> set kvs. \<not> mergeFails ext flt (map_of s k) k v"
  from mergeLoop_ok[OF assms this, of "[]"]
  show "\<exists>s' u'. mergeKeyValues ext s kvs flt = Inr (s', u')" by (simp add: mergeKeyValues_def)
qed

section \<open>What flooding leaves alone\<close>

lemma foldl_keeps: "(\<And>s x. g (f s x) = g s) \<Longrightarrow> g (foldl f s xs) = g s"
  by (induction xs arbitrary: s) simp_all

lemma sameStore_refl [simp]: "sameStore st st"
  by (simp add: sameStore_def)

lemma sameStore_trans: "sameStore a b \<Longrightarrow> sameStore b c \<Longrightarrow> sameStore a c"
  by (simp add: sameStore_def)

lemma sameStore_foldl:
  "(\<And>s x. sameStore s (f s x)) \<Longrightarrow> sameStore st (foldl f st xs)"
proof (induction xs arbitrary: st)
  case Nil
  then show ?case by simp
next
  case (Cons a xs)
  show ?case using Cons.IH[of "f st a"] Cons.prems sameStore_trans[of st "f st a"] by simp
qed

lemma sameStore_addStatValue [simp]: "sameStore st (addStatValue st name x)"
  by (simp add: sameStore_def addStatValue_def)

lemma sameStore_sendMessageToPeer [simp]: "sameStore st (sendMessageToPeer st sid req)"
  by (simp add: sameStore_def sendMessageToPeer_def)

lemma sameStore_bufferPublication: "sameStore st (bufferPublication st pub)"
  by (simp add: sameStore_def bufferPublication_def addStatValue_def Let_def)

lemma sameStore_floodToPeer: "sameStore st (floodToPeer sender pub req st peer)"
  by (auto simp: sameStore_def floodToPeer_def addStatValue_def sendMessageToPeer_def Let_def
           split: option.splits)

lemma sameStore_floodDirect: "sameStore st (floodDirect ext ops now st pub sfr)"
proof -
  have a: "sameStore st (st\<lparr>pubSent := x\<rparr>)" for x by (simp add: sameStore_def)
  have b: "sameStore (st\<lparr>pubSent := x\<rparr>) (foldl (floodToPeer sender p req) (st\<lparr>pubSent := x\<rparr>) ps)"
    for x sender p req ps
    by (rule sameStore_foldl) (rule sameStore_floodToPeer)
  have c: "sameStore st (foldl (floodToPeer sender p req) (st\<lparr>pubSent := x\<rparr>) ps)"
    for x sender p req ps
    using sameStore_trans[OF a b] .
  show ?thesis
    unfolding floodDirect_def Let_def
    by (simp add: a c)
qed

lemma sameStore_floodBufferedUpdates: "sameStore st (floodBufferedUpdates ext ops now st)"
proof -
  have a: "sameStore st (st\<lparr>publicationBuffer := []\<rparr>)" by (simp add: sameStore_def)
  have b: "sameStore (st\<lparr>publicationBuffer := []\<rparr>)
             (foldl (\<lambda>s pub. floodDirect ext ops now s pub False) (st\<lparr>publicationBuffer := []\<rparr>) ps)"
    for ps
    by (rule sameStore_foldl) (rule sameStore_floodDirect)
  have c: "sameStore st
             (foldl (\<lambda>s pub. floodDirect ext ops now s pub False) (st\<lparr>publicationBuffer := []\<rparr>) ps)"
    for ps
    using sameStore_trans[OF a b] .
  show ?thesis
    unfolding floodBufferedUpdates_def Let_def
    by (simp add: c)
qed

lemma sameStore_floodPublication:
  "sameStore st (floodPublication ext ops now consume st pub rl sfr)"
  unfolding floodPublication_def
  using sameStore_bufferPublication[of st pub] sameStore_floodDirect[of st ext ops now pub sfr]
    sameStore_trans[OF sameStore_bufferPublication[of st pub]
      sameStore_floodBufferedUpdates[of "bufferPublication st pub" ext ops now]]
  by simp

lemma sameStore_finalizeFullSync: "sameStore st (finalizeFullSync ops st ks sender)"
  by (simp add: finalizeFullSync_def Let_def)

section \<open>Claims about \<^verbatim>\<open>mergeKeyValues\<close>\<close>

lemma mergeKeyValues_decision:
  assumes "mergeKeyValues ext s kvs flt = Inr (s', u')"
    and "distinct (map fst kvs)" and "(k, v_new) \<in> set kvs"
    and "filterAccepts flt k v_new" and "ttlValid ext v_new"
  shows "map_of s' k = spec_apply ext (map_of s k) v_new \<and>
         map_of u' k = (if spec_decide (map_of s k) v_new = Skip then None else Some v_new)"
proof -
  have m: "map_of kvs k = Some v_new" using assms(2,3) by simp
  note r = mergeKeyValues_Inr[OF assms(2,1)]
  have "map_of s' k = spec_apply ext (map_of s k) v_new"
    using r[THEN conjunct2, THEN conjunct1, rule_format, of k] m assms(4,5)
    by (simp add: storedAfter_def)
  moreover have "map_of u' k = (if spec_decide (map_of s k) v_new = Skip then None else Some v_new)"
    using r[THEN conjunct2, THEN conjunct2, rule_format, of k] m assms(4,5)
    by (simp add: announced_def)
  ultimately show ?thesis by simp
qed

lemma mergeKeyValues_fails:
  assumes "mergeFails ext flt (map_of s k) k v"
  shows "mergeKeyValues ext s [(k, v)] flt =
           Inl (if map_of s k = None then EndIteratorDeref else OptionalEmpty)"
  using mergeKeyValue_fails[OF assms, of "[]"] by (simp add: mergeKeyValues_def)

lemma keySet_version_zero:
  "processRequestMsg ext0 ops0 0 True st0
     (Some ((emptyRequest KEY_SET)\<lparr>keySetParams :=
        Some \<lparr>setKeyVals = [(''x'', mkValue 0 ''a'' (Some ''v'') 5000 1)],
              solicitResponse = True, setNodeIds = None, setFloodRootId = None\<rparr>\<rparr>)) =
   Inl EndIteratorDeref"
  by (simp add: processRequestMsg_def emptyRequest_def mergePublication_def mergeKeyValues_def
        mergeKeyValue_def checkUpdateAll_def updateHash_def emptyPublication_def ext0_def
        st0_def mkValue_def addStatValue_def Let_def)

text \<open>
  Claim C1. Wherever \<^verbatim>\<open>mergeKeyValues\<close> returns, every incoming record that passes the
  filter and the TTL check is decided as the claim says (lemma \<open>mergeKeyValues_decision\<close>,
  with \<^const>\<open>spec_decide\<close> for the table of the claim). It returns if and only if no
  record of the batch is one on which it fails, \<^const>\<open>mergeFails\<close> (lemma
  \<open>mergeKeyValues_returns\<close>), so for every store whose records carry a value and every batch
  without a valued record of version 0 for a new key (lemma \<open>mergeKeyValues_result\<close>).
  But the claim is about every store and every record. A record of version 0 that carries
  a value, for a key that the store does not hold, passes the filter and the TTL check;
  its version is not below the version 0 taken for the absent record and not above it, so
  that the claim leaves the store as it is. The code goes on, past the test
  \<^verbatim>\<open>newVersion > myVersion\<close>, to compare the originator of the record with
  \<^verbatim>\<open>kvStoreIt->second.originatorId\<close>, where \<^verbatim>\<open>kvStoreIt\<close> is the end iterator of the store:
  undefined behaviour, here the result \<open>EndIteratorDeref\<close>. A KEY_SET request brings
  such a record to \<^verbatim>\<open>mergeKeyValues\<close> unchecked (lemma \<open>keySet_version_zero\<close>).
\<close>

theorem mergeKeyValues_version_zero:
  "filterAccepts None ''x'' (mkValue 0 ''a'' (Some ''v'') 5000 1) \<and>
   ttlValid ext0 (mkValue 0 ''a'' (Some ''v'') 5000 1) \<and>
   map_of ([] :: KeyVals) ''x'' = None \<and>
   spec_decide None (mkValue 0 ''a'' (Some ''v'') 5000 1) = Skip \<and>
   spec_apply ext0 None (mkValue 0 ''a'' (Some ''v'') 5000 1) = None \<and>
   mergeKeyValues ext0 [] [(''x'', mkValue 0 ''a'' (Some ''v'') 5000 1)] None =
     Inl EndIteratorDeref"
  by (simp add: filterAccepts_def ttlValid_def spec_decide_def spec_apply_def
        mergeKeyValues_def mergeKeyValue_def checkUpdateAll_def ext0_def mkValue_def Let_def)

text \<open>
  Claim C7. Merging again the record that the store holds for a key (same version,
  originator, value, ttl and ttlVersion; the hash fields are free) returns an empty delta
  and leaves the store as it is. The hash of the stored record need not even be present.
\<close>

theorem remerge_same_record:
  assumes "map_of s k = Some old"
    and "version v = version old" and "originatorId v = originatorId old"
    and "val v = val old" and "ttl v = ttl old" and "ttlVersion v = ttlVersion old"
  shows "mergeKeyValues ext s [(k, v)] flt = Inr (s, [])"
proof (cases "val old")
  case None
  then show ?thesis using assms
    by (simp add: mergeKeyValues_def mergeKeyValue_def Let_def checkUpdateAll_noval
          checkUpdateTtl_def)
next
  case (Some a)
  have "checkUpdateAll v (Some old) (version old) = Inr (False, False)"
    using checkUpdateAll_same[of v a "version old" old a] Some assms by simp
  then show ?thesis using assms Some
    by (simp add: mergeKeyValues_def mergeKeyValue_def Let_def checkUpdateTtl_def)
qed

theorem remerge_same_record_witness:
  "mergeKeyValues ext0 [(''x'', (mkValue 1 ''a'' (Some ''v1'') 5000 1)\<lparr>hash := Some 7\<rparr>)]
     [(''x'', mkValue 1 ''a'' (Some ''v1'') 5000 1)] None =
   Inr ([(''x'', (mkValue 1 ''a'' (Some ''v1'') 5000 1)\<lparr>hash := Some 7\<rparr>)], [])"
  using remerge_same_record[of "[(''x'', (mkValue 1 ''a'' (Some ''v1'') 5000 1)\<lparr>hash := Some 7\<rparr>)]"
          "''x''" "(mkValue 1 ''a'' (Some ''v1'') 5000 1)\<lparr>hash := Some 7\<rparr>"
          "mkValue 1 ''a'' (Some ''v1'') 5000 1" ext0 None]
  by (simp add: mkValue_def)

section \<open>Order of arrival and monotonicity\<close>

lemma spec_decide_None:
  "spec_decide None v = (if val v \<noteq> None \<and> 0 < version v then UpdateAll else Skip)"
  by (simp add: spec_decide_def)

lemma spec_decide_Some:
  assumes "val a = Some x" "val b = Some y"
  shows "spec_decide (Some a) b =
     (if version b < version a then Skip
      else if version a < version b then UpdateAll
      else if originatorId a < originatorId b then UpdateAll
      else if originatorId b < originatorId a then Skip
      else if x < y then UpdateAll
      else if y < x then Skip
      else if ttlVersion a < ttlVersion b then UpdateTtlOnly
      else Skip)"
  using assms by (auto simp: spec_decide_def)

lemma withHash_fields [simp]:
  "version (withHash ext v) = version v" "originatorId (withHash ext v) = originatorId v"
  "val (withHash ext v) = val v" "ttl (withHash ext v) = ttl v"
  "ttlVersion (withHash ext v) = ttlVersion v"
  by (simp_all add: withHash_def)

lemma withHash_hash:
  "hash (withHash ext v) =
     (case hash v of None \<Rightarrow> Some (generateHash ext (version v) (originatorId v) (val v))
      | Some h \<Rightarrow> Some h)"
  by (simp add: withHash_def split: option.splits)

lemma spec_apply_commute:
  assumes "val a = Some x" "val b = Some y"
  shows "map_option orderFields (spec_apply ext (Some (withHash ext a)) b) =
         map_option orderFields (spec_apply ext (Some (withHash ext b)) a)"
proof -
  have d1: "spec_decide (Some (withHash ext a)) b =
     (if version b < version a then Skip
      else if version a < version b then UpdateAll
      else if originatorId a < originatorId b then UpdateAll
      else if originatorId b < originatorId a then Skip
      else if x < y then UpdateAll
      else if y < x then Skip
      else if ttlVersion a < ttlVersion b then UpdateTtlOnly
      else Skip)"
    using spec_decide_Some[of "withHash ext a" x b y] assms by simp
  have d2: "spec_decide (Some (withHash ext b)) a =
     (if version a < version b then Skip
      else if version b < version a then UpdateAll
      else if originatorId b < originatorId a then UpdateAll
      else if originatorId a < originatorId b then Skip
      else if y < x then UpdateAll
      else if x < y then Skip
      else if ttlVersion b < ttlVersion a then UpdateTtlOnly
      else Skip)"
    using spec_decide_Some[of "withHash ext b" y a x] assms by simp
  show ?thesis
    unfolding spec_apply_def d1 d2 using assms
    by (auto simp: orderFields_def)
qed

lemma spec_apply_commute_hash:
  assumes "val a = Some x" "val b = Some y" "hashConsistent ext a" "hashConsistent ext b"
  shows "map_option hash (spec_apply ext (Some (withHash ext a)) b) =
         map_option hash (spec_apply ext (Some (withHash ext b)) a)"
proof -
  have d1: "spec_decide (Some (withHash ext a)) b =
     (if version b < version a then Skip
      else if version a < version b then UpdateAll
      else if originatorId a < originatorId b then UpdateAll
      else if originatorId b < originatorId a then Skip
      else if x < y then UpdateAll
      else if y < x then Skip
      else if ttlVersion a < ttlVersion b then UpdateTtlOnly
      else Skip)"
    using spec_decide_Some[of "withHash ext a" x b y] assms by simp
  have d2: "spec_decide (Some (withHash ext b)) a =
     (if version a < version b then Skip
      else if version b < version a then UpdateAll
      else if originatorId b < originatorId a then UpdateAll
      else if originatorId a < originatorId b then Skip
      else if y < x then UpdateAll
      else if x < y then Skip
      else if ttlVersion b < ttlVersion a then UpdateTtlOnly
      else Skip)"
    using spec_decide_Some[of "withHash ext b" y a x] assms by simp
  have same: "version a = version b \<Longrightarrow> originatorId a = originatorId b \<Longrightarrow> x = y \<Longrightarrow>
     hash (withHash ext a) = hash (withHash ext b)"
    using assms by (auto simp: withHash_hash hashConsistent_def split: option.splits)
  show ?thesis
    unfolding spec_apply_def d1 d2 using same
    by (auto simp: not_less dest: order.antisym)
qed

lemma spec_apply_commute_ttl:
  assumes "val a = Some x" "val b = Some y" "orderFields a \<noteq> orderFields b"
  shows "map_option ttl (spec_apply ext (Some (withHash ext a)) b) =
         map_option ttl (spec_apply ext (Some (withHash ext b)) a)"
proof -
  have d1: "spec_decide (Some (withHash ext a)) b =
     (if version b < version a then Skip
      else if version a < version b then UpdateAll
      else if originatorId a < originatorId b then UpdateAll
      else if originatorId b < originatorId a then Skip
      else if x < y then UpdateAll
      else if y < x then Skip
      else if ttlVersion a < ttlVersion b then UpdateTtlOnly
      else Skip)"
    using spec_decide_Some[of "withHash ext a" x b y] assms by simp
  have d2: "spec_decide (Some (withHash ext b)) a =
     (if version a < version b then Skip
      else if version b < version a then UpdateAll
      else if originatorId b < originatorId a then UpdateAll
      else if originatorId a < originatorId b then Skip
      else if y < x then UpdateAll
      else if x < y then Skip
      else if ttlVersion b < ttlVersion a then UpdateTtlOnly
      else Skip)"
    using spec_decide_Some[of "withHash ext b" y a x] assms by simp
  have ne: "version a \<noteq> version b \<or> originatorId a \<noteq> originatorId b \<or> x \<noteq> y \<or>
            ttlVersion a \<noteq> ttlVersion b"
    using assms by (auto simp: orderFields_def)
  show ?thesis
    unfolding spec_apply_def d1 d2 using ne
    by (auto simp: not_less dest: order.antisym)
qed

lemma spec_apply_commute_hash_other:
  assumes "val a = Some x" "val b = Some y"
    and "(version a, originatorId a, val a) \<noteq> (version b, originatorId b, val b)"
  shows "map_option hash (spec_apply ext (Some (withHash ext a)) b) =
         map_option hash (spec_apply ext (Some (withHash ext b)) a)"
proof -
  have d1: "spec_decide (Some (withHash ext a)) b =
     (if version b < version a then Skip
      else if version a < version b then UpdateAll
      else if originatorId a < originatorId b then UpdateAll
      else if originatorId b < originatorId a then Skip
      else if x < y then UpdateAll
      else if y < x then Skip
      else if ttlVersion a < ttlVersion b then UpdateTtlOnly
      else Skip)"
    using spec_decide_Some[of "withHash ext a" x b y] assms by simp
  have d2: "spec_decide (Some (withHash ext b)) a =
     (if version a < version b then Skip
      else if version b < version a then UpdateAll
      else if originatorId b < originatorId a then UpdateAll
      else if originatorId a < originatorId b then Skip
      else if y < x then UpdateAll
      else if x < y then Skip
      else if ttlVersion b < ttlVersion a then UpdateTtlOnly
      else Skip)"
    using spec_decide_Some[of "withHash ext b" y a x] assms by simp
  have ne: "version a \<noteq> version b \<or> originatorId a \<noteq> originatorId b \<or> x \<noteq> y"
    using assms by auto
  show ?thesis
    unfolding spec_apply_def d1 d2 using ne
    by (auto simp: not_less dest: order.antisym)
qed

lemma storedAfter_None:
  "storedAfter ext flt None k v =
     (if filterAccepts flt k v \<and> ttlValid ext v \<and> val v \<noteq> None \<and> 0 < version v
      then Some (withHash ext v) else None)"
  by (simp add: storedAfter_def spec_apply_def spec_decide_None)

lemma storedAfter_not_stored:
  assumes "\<not> refreshes ext flt k v2 v1"
    and "filterAccepts flt k v1" "ttlValid ext v1" "val v1 \<noteq> None" "0 < version v1"
    and "\<not> (filterAccepts flt k v2 \<and> ttlValid ext v2 \<and> val v2 \<noteq> None \<and> 0 < version v2)"
  shows "storedAfter ext flt (Some (withHash ext v1)) k v2 = Some (withHash ext v1)"
proof (cases "filterAccepts flt k v2 \<and> ttlValid ext v2")
  case False
  then show ?thesis by (auto simp: storedAfter_def)
next
  case True
  then have c: "val v2 = None \<or> \<not> 0 < version v2" using assms(6) by blast
  have nr: "\<not> refreshOf v2 v1" using assms(1,2,3,5) True by (simp add: refreshes_def)
  have "spec_decide (Some (withHash ext v1)) v2 = Skip"
    using c nr assms(4,5) by (auto simp: spec_decide_def refreshOf_def Let_def)
  then show ?thesis using True by (simp add: storedAfter_def spec_apply_def)
qed

lemma storedAfter_twice:
  assumes "\<not> refreshes ext flt k v1 v2" "\<not> refreshes ext flt k v2 v1"
  shows "map_option orderFields (storedAfter ext flt (storedAfter ext flt None k v1) k v2) =
         map_option orderFields (storedAfter ext flt (storedAfter ext flt None k v2) k v1) \<and>
         (orderFields v1 \<noteq> orderFields v2 \<longrightarrow>
          map_option ttl (storedAfter ext flt (storedAfter ext flt None k v1) k v2) =
          map_option ttl (storedAfter ext flt (storedAfter ext flt None k v2) k v1)) \<and>
         ((version v1, originatorId v1, val v1) \<noteq> (version v2, originatorId v2, val v2) \<or>
          hashConsistent ext v1 \<and> hashConsistent ext v2 \<longrightarrow>
          map_option hash (storedAfter ext flt (storedAfter ext flt None k v1) k v2) =
          map_option hash (storedAfter ext flt (storedAfter ext flt None k v2) k v1))"
proof -
  define st1 where "st1 = (filterAccepts flt k v1 \<and> ttlValid ext v1 \<and> val v1 \<noteq> None \<and> 0 < version v1)"
  define st2 where "st2 = (filterAccepts flt k v2 \<and> ttlValid ext v2 \<and> val v2 \<noteq> None \<and> 0 < version v2)"
  have n1: "storedAfter ext flt None k v1 = (if st1 then Some (withHash ext v1) else None)"
    and n2: "storedAfter ext flt None k v2 = (if st2 then Some (withHash ext v2) else None)"
    by (simp_all add: storedAfter_None st1_def st2_def)
  consider (pp) st1 st2 | (pn) st1 "\<not> st2" | (np) "\<not> st1" st2 | (nn) "\<not> st1" "\<not> st2"
    by blast
  then show ?thesis
  proof cases
    case pp
    obtain x y where xy: "val v1 = Some x" "val v2 = Some y" using pp by (auto simp: st1_def st2_def)
    have a12: "storedAfter ext flt (Some (withHash ext v1)) k v2 =
                 spec_apply ext (Some (withHash ext v1)) v2"
      and a21: "storedAfter ext flt (Some (withHash ext v2)) k v1 =
                 spec_apply ext (Some (withHash ext v2)) v1"
      using pp by (simp_all add: storedAfter_def st1_def st2_def)
    have h: "map_option hash (spec_apply ext (Some (withHash ext v1)) v2) =
             map_option hash (spec_apply ext (Some (withHash ext v2)) v1)"
      if "(version v1, originatorId v1, val v1) \<noteq> (version v2, originatorId v2, val v2) \<or>
          hashConsistent ext v1 \<and> hashConsistent ext v2"
      using that spec_apply_commute_hash[OF xy, of ext] spec_apply_commute_hash_other[OF xy, of ext]
      by blast
    have t: "map_option ttl (spec_apply ext (Some (withHash ext v1)) v2) =
             map_option ttl (spec_apply ext (Some (withHash ext v2)) v1)"
      if "orderFields v1 \<noteq> orderFields v2"
      using that spec_apply_commute_ttl[OF xy, of ext] by blast
    have e12: "storedAfter ext flt (storedAfter ext flt None k v1) k v2 =
                 spec_apply ext (Some (withHash ext v1)) v2"
      and e21: "storedAfter ext flt (storedAfter ext flt None k v2) k v1 =
                 spec_apply ext (Some (withHash ext v2)) v1"
      using pp n1 n2 a12 a21 by simp_all
    show ?thesis
      unfolding e12 e21
      using h t spec_apply_commute[OF xy, of ext] by blast
  next
    case pn
    have "storedAfter ext flt (Some (withHash ext v1)) k v2 = Some (withHash ext v1)"
      using storedAfter_not_stored[OF assms(2)] pn by (simp add: st1_def st2_def)
    then have e12: "storedAfter ext flt (storedAfter ext flt None k v1) k v2 =
                      Some (withHash ext v1)"
      using pn n1 by simp
    have e21: "storedAfter ext flt (storedAfter ext flt None k v2) k v1 =
                 Some (withHash ext v1)"
      using pn n1 n2 by simp
    show ?thesis unfolding e12 e21 by simp
  next
    case np
    have "storedAfter ext flt (Some (withHash ext v2)) k v1 = Some (withHash ext v2)"
      using storedAfter_not_stored[OF assms(1)] np by (simp add: st1_def st2_def)
    then have e21: "storedAfter ext flt (storedAfter ext flt None k v2) k v1 =
                      Some (withHash ext v2)"
      using np n2 by simp
    have e12: "storedAfter ext flt (storedAfter ext flt None k v1) k v2 =
                 Some (withHash ext v2)"
      using np n1 n2 by simp
    show ?thesis unfolding e12 e21 by simp
  next
    case nn
    have e12: "storedAfter ext flt (storedAfter ext flt None k v1) k v2 = None"
      and e21: "storedAfter ext flt (storedAfter ext flt None k v2) k v1 = None"
      using nn n1 n2 by simp_all
    show ?thesis unfolding e12 e21 by simp
  qed
qed

lemma mergeKeyValues_single:
  assumes "\<not> mergeFails ext flt (map_of s k) k v"
  shows "\<exists>s' u'. mergeKeyValues ext s [(k, v)] flt = Inr (s', u') \<and>
           map_of s' = (map_of s)(k := storedAfter ext flt (map_of s k) k v)"
  using mergeKeyValue_step[OF assms, of "[]"] by (auto simp: mergeKeyValues_def)

lemma mergeFails_withHash:
  "storedAfter ext flt None k v1 = Some w \<Longrightarrow> \<not> mergeFails ext flt (Some w) k v2"
  by (auto simp: storedAfter_None mergeFails_def split: if_splits)

lemma mergeInOrder_result:
  assumes "\<not> mergeFails ext flt None k v1" "\<not> mergeFails ext flt None k v2"
  shows "\<exists>s. mergeInOrder ext flt k v1 v2 = Inr s \<and>
           (\<forall>k'. map_of s k' =
              (if k' = k then storedAfter ext flt (storedAfter ext flt None k v1) k v2
               else None))"
proof -
  obtain s1 u1 where r1: "mergeKeyValues ext [] [(k, v1)] flt = Inr (s1, u1)"
    "map_of s1 = (map_of [])(k := storedAfter ext flt (map_of [] k) k v1)"
    using mergeKeyValues_single[of ext flt "[]" k v1] assms(1) by auto
  have k1: "map_of s1 k = storedAfter ext flt None k v1" using r1(2) by simp
  have nf: "\<not> mergeFails ext flt (map_of s1 k) k v2"
  proof (cases "storedAfter ext flt None k v1")
    case None
    then show ?thesis using assms(2) k1 by simp
  next
    case (Some w)
    then show ?thesis using mergeFails_withHash[OF Some] k1 by simp
  qed
  obtain s2 u2 where r2: "mergeKeyValues ext s1 [(k, v2)] flt = Inr (s2, u2)"
    "map_of s2 = (map_of s1)(k := storedAfter ext flt (map_of s1 k) k v2)"
    using mergeKeyValues_single[OF nf] by blast
  have "map_of s2 k' =
              (if k' = k then storedAfter ext flt (storedAfter ext flt None k v1) k v2
               else None)" for k'
    using r1(2) r2(2) k1 by (cases "k' = k") simp_all
  then show ?thesis using r1(1) r2(1) by (simp add: mergeInOrder_def)
qed

lemma mergeInOrder_fails:
  assumes "mergeFails ext flt None k v1"
  shows "mergeInOrder ext flt k v1 v2 = Inl EndIteratorDeref"
  using mergeKeyValues_fails[of ext flt "[]" k v1] assms by (simp add: mergeInOrder_def)

lemma mergeInOrder_refresh:
  assumes "refreshes ext flt k v2 v1"
    and "\<not> mergeFails ext flt None k v1" "\<not> mergeFails ext flt None k v2"
  shows "\<exists>s12 s21.
           mergeInOrder ext flt k v1 v2 = Inr s12 \<and> mergeInOrder ext flt k v2 v1 = Inr s21 \<and>
           map_option ttlVersion (map_of s12 k) = Some (ttlVersion v2) \<and>
           map_option ttlVersion (map_of s21 k) = Some (ttlVersion v1) \<and>
           ttlVersion v1 < ttlVersion v2"
proof -
  obtain s12 where a: "mergeInOrder ext flt k v1 v2 = Inr s12"
    "map_of s12 k = storedAfter ext flt (storedAfter ext flt None k v1) k v2"
    using mergeInOrder_result[OF assms(2,3)] by auto
  obtain s21 where b: "mergeInOrder ext flt k v2 v1 = Inr s21"
    "map_of s21 k = storedAfter ext flt (storedAfter ext flt None k v2) k v1"
    using mergeInOrder_result[OF assms(3,2)] by auto
  have h: "val v2 = None" "val v1 \<noteq> None" "version v2 = version v1"
    "originatorId v2 = originatorId v1" "ttlVersion v1 < ttlVersion v2"
    "filterAccepts flt k v2" "ttlValid ext v2" "filterAccepts flt k v1" "ttlValid ext v1"
    "0 < version v1"
    using assms(1) by (simp_all add: refreshes_def refreshOf_def)
  have n1: "storedAfter ext flt None k v1 = Some (withHash ext v1)"
    and n2: "storedAfter ext flt None k v2 = None"
    using h by (simp_all add: storedAfter_None)
  have "spec_decide (Some (withHash ext v1)) v2 = UpdateTtlOnly"
    using h by (simp add: spec_decide_def)
  then have e12: "storedAfter ext flt (Some (withHash ext v1)) k v2 =
                    Some ((withHash ext v1)\<lparr>ttl := ttl v2, ttlVersion := ttlVersion v2\<rparr>)"
    using h by (simp add: storedAfter_def spec_apply_def)
  show ?thesis
    using a b h(5) by (simp add: n1 n2 e12)
qed

text \<open>
  Claim C5 as stated fails, in four ways. Two records that differ only in \<open>ttl\<close> (100 and
  200, same ttlVersion) leave the store with the \<open>ttl\<close> of whichever came first. A record
  and its TTL refresh (no value, ttlVersion 2) leave ttlVersion 2 when the refresh comes
  second, and ttlVersion 1 when it comes first and finds nothing to refresh. Two records
  equal in version, originator and value that bring different hashes leave the hash of
  whichever came first. And a record of version 0 with a value does not get through when it
  comes first (claim C1), while it is skipped when it comes second.
\<close>

theorem merge_order_counterexample:
  "mergeInOrder ext0 None ''x'' (mkValue 1 ''a'' (Some ''v'') 100 1)
       (mkValue 1 ''a'' (Some ''v'') 200 1) =
     Inr [(''x'', (mkValue 1 ''a'' (Some ''v'') 100 1)\<lparr>hash := Some 0\<rparr>)] \<and>
   mergeInOrder ext0 None ''x'' (mkValue 1 ''a'' (Some ''v'') 200 1)
       (mkValue 1 ''a'' (Some ''v'') 100 1) =
     Inr [(''x'', (mkValue 1 ''a'' (Some ''v'') 200 1)\<lparr>hash := Some 0\<rparr>)] \<and>
   mergeInOrder ext0 None ''x'' (mkValue 1 ''a'' (Some ''v'') 100 1)
       (mkValue 1 ''a'' None 200 2) =
     Inr [(''x'', (mkValue 1 ''a'' (Some ''v'') 200 2)\<lparr>hash := Some 0\<rparr>)] \<and>
   mergeInOrder ext0 None ''x'' (mkValue 1 ''a'' None 200 2)
       (mkValue 1 ''a'' (Some ''v'') 100 1) =
     Inr [(''x'', (mkValue 1 ''a'' (Some ''v'') 100 1)\<lparr>hash := Some 0\<rparr>)] \<and>
   mergeInOrder ext0 None ''x'' ((mkValue 1 ''a'' (Some ''v'') 100 1)\<lparr>hash := Some 1\<rparr>)
       ((mkValue 1 ''a'' (Some ''v'') 100 1)\<lparr>hash := Some 2\<rparr>) =
     Inr [(''x'', (mkValue 1 ''a'' (Some ''v'') 100 1)\<lparr>hash := Some 1\<rparr>)] \<and>
   mergeInOrder ext0 None ''x'' ((mkValue 1 ''a'' (Some ''v'') 100 1)\<lparr>hash := Some 2\<rparr>)
       ((mkValue 1 ''a'' (Some ''v'') 100 1)\<lparr>hash := Some 1\<rparr>) =
     Inr [(''x'', (mkValue 1 ''a'' (Some ''v'') 100 1)\<lparr>hash := Some 2\<rparr>)] \<and>
   mergeInOrder ext0 None ''x'' (mkValue 0 ''a'' (Some ''v'') 100 1)
       (mkValue 1 ''a'' (Some ''v'') 100 1) = Inl EndIteratorDeref \<and>
   mergeInOrder ext0 None ''x'' (mkValue 1 ''a'' (Some ''v'') 100 1)
       (mkValue 0 ''a'' (Some ''v'') 100 1) =
     Inr [(''x'', (mkValue 1 ''a'' (Some ''v'') 100 1)\<lparr>hash := Some 0\<rparr>)]"
  by (simp add: mergeInOrder_def mergeKeyValues_def mergeKeyValue_def ext0_def mkValue_def
        checkUpdateAll_def checkUpdateTtl_def emplace_def string_compare_def S_compare_def Let_def)

text \<open>
  Claim C5, amended. Let \<open>v1\<close> and \<open>v2\<close> be two records of the same key such that neither
  is a record on which \<^verbatim>\<open>mergeKeyValues\<close> fails for a new key (it passes the filter and the
  TTL check, carries a value and has version 0: claim C1), and neither refreshes the TTL
  of the other (a record without value that passes the filter and the TTL check and has
  the version and the originator of the other and a higher ttlVersion, the other being a
  record that is stored when it comes first). Then merging \<open>v1\<close> and then \<open>v2\<close> into an
  empty store, and merging \<open>v2\<close> and then \<open>v1\<close>, both return; no other key is stored; and
  the records stored for the key (or their absence) agree on version, originator, value
  and ttlVersion. They agree on \<open>ttl\<close> as well unless \<open>v1\<close> and \<open>v2\<close> are equal in these four
  fields, and on the hash unless \<open>v1\<close> and \<open>v2\<close> are equal in version, originator and value
  and one of them brings a hash that is not the generated one. So the stored record is the
  same in both orders, but for the \<open>ttl\<close> between two records that the order does not tell
  apart and for a hash that does not belong to its record. The two conditions cannot be
  dropped: for a pair that the first excludes one order fails (lemma
  \<open>mergeInOrder_fails\<close>), and for a pair that the second excludes the two orders leave
  different ttlVersions (lemma \<open>mergeInOrder_refresh\<close>).
\<close>

theorem merge_order_independent_fields:
  assumes "\<not> mergeFails ext flt None k v1" "\<not> mergeFails ext flt None k v2"
    and "\<not> refreshes ext flt k v1 v2" "\<not> refreshes ext flt k v2 v1"
  shows "\<exists>s12 s21.
           mergeInOrder ext flt k v1 v2 = Inr s12 \<and> mergeInOrder ext flt k v2 v1 = Inr s21 \<and>
           (\<forall>k'. k' \<noteq> k \<longrightarrow> map_of s12 k' = None \<and> map_of s21 k' = None) \<and>
           map_option orderFields (map_of s12 k) = map_option orderFields (map_of s21 k) \<and>
           (orderFields v1 \<noteq> orderFields v2 \<longrightarrow>
            map_option ttl (map_of s12 k) = map_option ttl (map_of s21 k)) \<and>
           ((version v1, originatorId v1, val v1) \<noteq> (version v2, originatorId v2, val v2) \<or>
            hashConsistent ext v1 \<and> hashConsistent ext v2 \<longrightarrow>
            map_option hash (map_of s12 k) = map_option hash (map_of s21 k))"
proof -
  obtain s12 where a: "mergeInOrder ext flt k v1 v2 = Inr s12"
    "\<forall>k'. map_of s12 k' =
       (if k' = k then storedAfter ext flt (storedAfter ext flt None k v1) k v2 else None)"
    using mergeInOrder_result[OF assms(1,2)] by blast
  obtain s21 where b: "mergeInOrder ext flt k v2 v1 = Inr s21"
    "\<forall>k'. map_of s21 k' =
       (if k' = k then storedAfter ext flt (storedAfter ext flt None k v2) k v1 else None)"
    using mergeInOrder_result[OF assms(2,1)] by blast
  have k12: "map_of s12 k = storedAfter ext flt (storedAfter ext flt None k v1) k v2"
    and k21: "map_of s21 k = storedAfter ext flt (storedAfter ext flt None k v2) k v1"
    and o: "\<forall>k'. k' \<noteq> k \<longrightarrow> map_of s12 k' = None \<and> map_of s21 k' = None"
    using a(2) b(2) by simp_all
  show ?thesis
    using a(1) b(1) o storedAfter_twice[OF assms(3,4)]
    unfolding k12[symmetric] k21[symmetric] by blast
qed

text \<open>
  Two records of the same version that differ in originator and in \<open>ttl\<close>: in both orders
  the record of the greater originator is stored, with its \<open>ttl\<close> and its hash.
\<close>

theorem merge_order_independent_fields_witness:
  "\<exists>s12 s21.
     mergeInOrder ext0 None ''x'' (mkValue 1 ''a'' (Some ''v1'') 100 1)
       (mkValue 1 ''b'' (Some ''v2'') 200 1) = Inr s12 \<and>
     mergeInOrder ext0 None ''x'' (mkValue 1 ''b'' (Some ''v2'') 200 1)
       (mkValue 1 ''a'' (Some ''v1'') 100 1) = Inr s21 \<and>
     map_option orderFields (map_of s12 ''x'') = map_option orderFields (map_of s21 ''x'') \<and>
     map_option ttl (map_of s12 ''x'') = map_option ttl (map_of s21 ''x'') \<and>
     map_option hash (map_of s12 ''x'') = map_option hash (map_of s21 ''x'')"
  using merge_order_independent_fields[of ext0 None "''x''" "mkValue 1 ''a'' (Some ''v1'') 100 1"
          "mkValue 1 ''b'' (Some ''v2'') 200 1"]
  by (simp add: mkValue_def mergeFails_def refreshes_def refreshOf_def orderFields_def) blast

lemma spec_leq_refl: "spec_leq a a"
  by (simp add: spec_leq_def)

lemma valLess_trans: "valLess a b \<Longrightarrow> valLess b c \<Longrightarrow> valLess a c"
  by (auto simp: valLess_def split: option.splits)

lemma valLess_irrefl: "\<not> valLess a a"
  by (auto simp: valLess_def split: option.splits)

lemma spec_leq_trans:
  assumes "spec_leq a b" "spec_leq b c"
  shows "spec_leq a c"
proof -
  consider (v) "version a < version b \<or> version b < version c"
    | (o) "version a = version b" "version b = version c"
          "originatorId a < originatorId b \<or> originatorId b < originatorId c"
    | (l) "version a = version b" "version b = version c"
          "originatorId a = originatorId b" "originatorId b = originatorId c"
    using assms by (auto simp: spec_leq_def)
  then show ?thesis
  proof cases
    case v
    then show ?thesis using assms by (auto simp: spec_leq_def)
  next
    case o
    then show ?thesis using assms by (auto simp: spec_leq_def)
  next
    case l
    have ab: "valLess (val a) (val b) \<or> val a = val b \<and> ttlVersion a \<le> ttlVersion b"
      and bc: "valLess (val b) (val c) \<or> val b = val c \<and> ttlVersion b \<le> ttlVersion c"
      using assms l by (auto simp: spec_leq_def)
    have "valLess (val a) (val c) \<or> val a = val c \<and> ttlVersion a \<le> ttlVersion c"
      using ab bc valLess_trans[of "val a" "val b" "val c"] by auto
    then show ?thesis using l by (simp add: spec_leq_def)
  qed
qed

lemma storedAfter_unchanged:
  assumes "\<not> (filterAccepts flt k v \<and> ttlValid ext v \<and>
              (val v \<noteq> None \<or> version v = version old \<and> originatorId v = originatorId old))"
  shows "storedAfter ext flt (Some old) k v = Some old"
proof (cases "filterAccepts flt k v \<and> ttlValid ext v")
  case False
  then show ?thesis by (auto simp: storedAfter_def)
next
  case True
  then have "val v = None" "\<not> (version v = version old \<and> originatorId v = originatorId old)"
    using assms by auto
  then have "spec_decide (Some old) v = Skip" by (auto simp: spec_decide_def Let_def)
  then show ?thesis using True by (simp add: storedAfter_def spec_apply_def)
qed

lemma storedAfter_old_leq:
  assumes "\<not> mergeFails ext flt (Some old) k v"
  shows "\<exists>r. storedAfter ext flt (Some old) k v = Some r \<and> spec_leq old r"
proof (cases "filterAccepts flt k v \<and> ttlValid ext v")
  case False
  then show ?thesis by (auto simp: storedAfter_def spec_leq_refl)
next
  case True
  then have st: "storedAfter ext flt (Some old) k v = spec_apply ext (Some old) v"
    by (simp add: storedAfter_def)
  show ?thesis
  proof (cases "val v")
    case None
    then show ?thesis unfolding st
      by (auto simp: spec_apply_def spec_decide_def spec_leq_def Let_def)
  next
    case (Some a)
    show ?thesis
    proof (cases "val old")
      case S2: (Some b)
      show ?thesis
        unfolding st spec_apply_def spec_decide_Some[OF S2 Some]
        using S2 Some by (auto simp: spec_leq_def valLess_def)
    next
      case None
      have ne: "version v = version old \<Longrightarrow> originatorId v \<noteq> originatorId old"
        using assms True Some None by (auto simp: mergeFails_def)
      show ?thesis unfolding st using Some None ne
        by (auto simp: spec_apply_def spec_decide_def spec_leq_def Let_def)
    qed
  qed
qed

lemma storedAfter_new_leq:
  assumes "\<not> mergeFails ext flt (Some old) k v"
    and "filterAccepts flt k v" "ttlValid ext v"
    and "val v \<noteq> None \<or> version v = version old \<and> originatorId v = originatorId old"
  shows "\<exists>r. storedAfter ext flt (Some old) k v = Some r \<and> spec_leq v r"
proof -
  have st: "storedAfter ext flt (Some old) k v = spec_apply ext (Some old) v"
    using assms(2,3) by (simp add: storedAfter_def)
  show ?thesis
  proof (cases "val v")
    case None
    then have e: "version v = version old" "originatorId v = originatorId old"
      using assms(4) by auto
    show ?thesis unfolding st using None e
      by (cases "val old")
         (auto simp: spec_apply_def spec_decide_def spec_leq_def valLess_def Let_def)
  next
    case (Some a)
    show ?thesis
    proof (cases "val old")
      case S2: (Some b)
      show ?thesis
        unfolding st spec_apply_def spec_decide_Some[OF S2 Some]
        using S2 Some by (auto simp: spec_leq_def valLess_def)
    next
      case None
      have ne: "version v = version old \<Longrightarrow> originatorId v \<noteq> originatorId old"
        using assms(1,2,3) Some None by (auto simp: mergeFails_def)
      show ?thesis unfolding st using Some None ne
        by (auto simp: spec_apply_def spec_decide_def spec_leq_def withHash_def Let_def)
    qed
  qed
qed

text \<open>
  Claim C6 as stated fails for the records that \<^verbatim>\<open>mergeKeyValues\<close> passes over: a record
  without value and of a higher version is no TTL refresh of the stored record, and a
  record of a higher version whose TTL is 0 fails the TTL check; both leave the stored
  record as it is, below them.
\<close>

theorem merge_monotone_counterexample:
  "mergeKeyValues ext0 [(''x'', mkValue 1 ''a'' (Some ''v'') 5000 1)]
     [(''x'', mkValue 2 ''a'' None 5000 1)] None =
     Inr ([(''x'', mkValue 1 ''a'' (Some ''v'') 5000 1)], []) \<and>
   \<not> spec_leq (mkValue 2 ''a'' None 5000 1) (mkValue 1 ''a'' (Some ''v'') 5000 1) \<and>
   mergeKeyValues ext0 [(''x'', mkValue 1 ''a'' (Some ''v'') 5000 1)]
     [(''x'', mkValue 2 ''a'' (Some ''w'') 0 1)] None =
     Inr ([(''x'', mkValue 1 ''a'' (Some ''v'') 5000 1)], []) \<and>
   \<not> spec_leq (mkValue 2 ''a'' (Some ''w'') 0 1) (mkValue 1 ''a'' (Some ''v'') 5000 1)"
  by (simp add: mergeKeyValues_def mergeKeyValue_def ext0_def mkValue_def
        checkUpdateAll_def checkUpdateTtl_def spec_leq_def Let_def)

text \<open>
  Claim C6, amended. Let the store hold the record \<open>v_old\<close> for a key, and let \<open>v_new\<close> be
  the incoming record for that key in a batch with distinct keys. \<^verbatim>\<open>mergeKeyValues\<close>
  returns if and only if no record of the batch is one on which it fails (claim C1:
  \<^const>\<open>mergeFails\<close>, a record that passes the filter and the TTL check and carries a value,
  and either has version 0 and a new key, or meets a stored record of its version and
  originator that has no value). Whenever it returns, the record stored for the key
  afterwards is at least \<open>v_old\<close> in the order of section 4.1. It is at least \<open>v_new\<close> if and only if \<open>v_new\<close> passes the filter and the TTL check and
  either carries a value or has the version and the originator of \<open>v_old\<close> (the TTL
  refresh), or \<open>v_new\<close> was not above \<open>v_old\<close> in the first place: a record that fails the
  filter or the TTL check, and a record without value that is not of the version and
  originator of \<open>v_old\<close>, leave the stored record as it is.
\<close>

theorem merge_monotone:
  assumes "distinct (map fst kvs)" and "(k, v_new) \<in> set kvs" and "map_of s k = Some v_old"
  shows "((\<exists>s' u'. mergeKeyValues ext s kvs flt = Inr (s', u')) \<longleftrightarrow>
          (\<forall>(k', v') \<in> set kvs. \<not> mergeFails ext flt (map_of s k') k' v')) \<and>
         (\<forall>s' u'. mergeKeyValues ext s kvs flt = Inr (s', u') \<longrightarrow>
            (\<exists>r. map_of s' k = Some r \<and> spec_leq v_old r \<and>
                 (spec_leq v_new r \<longleftrightarrow>
                    filterAccepts flt k v_new \<and> ttlValid ext v_new \<and>
                    (val v_new \<noteq> None \<or>
                     version v_new = version v_old \<and> originatorId v_new = originatorId v_old) \<or>
                    spec_leq v_new v_old)))"
proof (intro conjI impI allI)
  show "(\<exists>s' u'. mergeKeyValues ext s kvs flt = Inr (s', u')) \<longleftrightarrow>
        (\<forall>(k', v') \<in> set kvs. \<not> mergeFails ext flt (map_of s k') k' v')"
    by (rule mergeKeyValues_returns[OF assms(1)])
next
  fix s' u'
  assume ret: "mergeKeyValues ext s kvs flt = Inr (s', u')"
  have m: "map_of kvs k = Some v_new" using assms(1,2) by simp
  note r = mergeKeyValues_Inr[OF assms(1) ret]
  have nf: "\<not> mergeFails ext flt (Some v_old) k v_new"
    using r[THEN conjunct1] assms(2,3) by auto
  have st: "map_of s' k = storedAfter ext flt (Some v_old) k v_new"
    using r[THEN conjunct2, THEN conjunct1, rule_format, of k] m assms(3) by simp
  obtain r0 where r0: "storedAfter ext flt (Some v_old) k v_new = Some r0" "spec_leq v_old r0"
    using storedAfter_old_leq[OF nf] by blast
  define merged where "merged = (filterAccepts flt k v_new \<and> ttlValid ext v_new \<and>
                    (val v_new \<noteq> None \<or>
                     version v_new = version v_old \<and> originatorId v_new = originatorId v_old))"
  have "spec_leq v_new r0 \<longleftrightarrow> merged \<or> spec_leq v_new v_old"
  proof (cases merged)
    case True
    then have "spec_leq v_new r0"
      using storedAfter_new_leq[OF nf, of] r0(1) by (auto simp: merged_def)
    then show ?thesis using True by simp
  next
    case False
    then have "r0 = v_old"
      using storedAfter_unchanged[of flt k v_new ext v_old] r0(1) by (simp add: merged_def)
    then show ?thesis using False by simp
  qed
  then show "\<exists>r. map_of s' k = Some r \<and> spec_leq v_old r \<and>
                 (spec_leq v_new r \<longleftrightarrow>
                    filterAccepts flt k v_new \<and> ttlValid ext v_new \<and>
                    (val v_new \<noteq> None \<or>
                     version v_new = version v_old \<and> originatorId v_new = originatorId v_old) \<or>
                    spec_leq v_new v_old)"
    using st r0 by (simp add: merged_def)
qed

text \<open>
  A record of the same version and a greater originator replaces the stored record; the
  stored record is then above both.
\<close>

theorem merge_monotone_witness:
  "\<exists>s' u'. mergeKeyValues ext0 [(''x'', mkValue 1 ''a'' (Some ''v1'') 5000 1)]
              [(''x'', mkValue 1 ''b'' (Some ''v1b'') 5000 1)] None = Inr (s', u') \<and>
     (\<exists>r. map_of s' ''x'' = Some r \<and> spec_leq (mkValue 1 ''a'' (Some ''v1'') 5000 1) r \<and>
          spec_leq (mkValue 1 ''b'' (Some ''v1b'') 5000 1) r)"
proof -
  note t = merge_monotone[of "[(''x'', mkValue 1 ''b'' (Some ''v1b'') 5000 1)]" "''x''"
          "mkValue 1 ''b'' (Some ''v1b'') 5000 1"
          "[(''x'', mkValue 1 ''a'' (Some ''v1'') 5000 1)]"
          "mkValue 1 ''a'' (Some ''v1'') 5000 1" ext0 None]
  have h: "distinct (map fst [(''x'', mkValue 1 ''b'' (Some ''v1b'') 5000 1)])"
    "(''x'', mkValue 1 ''b'' (Some ''v1b'') 5000 1) \<in> set [(''x'', mkValue 1 ''b'' (Some ''v1b'') 5000 1)]"
    "map_of [(''x'', mkValue 1 ''a'' (Some ''v1'') 5000 1)] ''x'' =
       Some (mkValue 1 ''a'' (Some ''v1'') 5000 1)"
    by simp_all
  have c: "\<forall>(k', v') \<in> set [(''x'', mkValue 1 ''b'' (Some ''v1b'') 5000 1)].
              \<not> mergeFails ext0 None (map_of [(''x'', mkValue 1 ''a'' (Some ''v1'') 5000 1)] k') k' v'"
    by (simp add: mergeFails_def mkValue_def)
  have acc: "filterAccepts None ''x'' (mkValue 1 ''b'' (Some ''v1b'') 5000 1) \<and>
             ttlValid ext0 (mkValue 1 ''b'' (Some ''v1b'') 5000 1) \<and>
             val (mkValue 1 ''b'' (Some ''v1b'') 5000 1) \<noteq> None"
    by (simp add: filterAccepts_def ttlValid_def ext0_def mkValue_def)
  obtain s' u' where ret: "mergeKeyValues ext0 [(''x'', mkValue 1 ''a'' (Some ''v1'') 5000 1)]
              [(''x'', mkValue 1 ''b'' (Some ''v1b'') 5000 1)] None = Inr (s', u')"
    using t[OF h, THEN conjunct1] c by blast
  show ?thesis
    using t[OF h, THEN conjunct2, rule_format, OF ret] ret acc by blast
qed

section \<open>\<^verbatim>\<open>dumpDifference\<close>\<close>

lemma dumpDifferenceKey_eq:
  "dumpDifferenceKey my req (kvs, tbu) k =
     (case keptByDiff my req k of None \<Rightarrow> kvs | Some mv \<Rightarrow> emplace kvs k mv,
      if wantedByDiff my req k then tbu @ [k] else tbu)"
  by (auto simp: dumpDifferenceKey_def keptByDiff_def wantedByDiff_def Let_def
           split: option.splits)

lemma dumpDifference_fold:
  assumes "distinct ks" "\<forall>k \<in> set ks. map_of kvs k = None"
  shows "map_of (fst (foldl (dumpDifferenceKey my req) (kvs, tbu) ks)) k =
           (if k \<in> set ks then keptByDiff my req k else map_of kvs k) \<and>
         snd (foldl (dumpDifferenceKey my req) (kvs, tbu) ks) =
           tbu @ filter (wantedByDiff my req) ks"
  using assms
proof (induction ks arbitrary: kvs tbu)
  case Nil
  then show ?case by simp
next
  case (Cons a ks)
  define kvs1 where "kvs1 = (case keptByDiff my req a of None \<Rightarrow> kvs | Some mv \<Rightarrow> emplace kvs a mv)"
  define tbu1 where "tbu1 = (if wantedByDiff my req a then tbu @ [a] else tbu)"
  have step: "dumpDifferenceKey my req (kvs, tbu) a = (kvs1, tbu1)"
    by (simp add: dumpDifferenceKey_eq kvs1_def tbu1_def)
  have a0: "map_of kvs a = None" using Cons.prems(2) by simp
  have m1: "map_of kvs1 = (map_of kvs)(a := keptByDiff my req a)"
    using a0 by (auto simp: kvs1_def map_of_emplace_absent fun_upd_idem split: option.splits)
  have d: "distinct ks" and na: "a \<notin> set ks" using Cons.prems(1) by auto
  have p: "\<forall>k \<in> set ks. map_of kvs1 k = None"
    using Cons.prems(2) na m1 by auto
  show ?case
    using Cons.IH[OF d p, of tbu1] step m1 na
    by (auto simp: tbu1_def)
qed

lemma dumpDifference_keyVals:
  "map_of (keyVals (dumpDifference my req)) k = keptByDiff my req k"
proof -
  have n: "keptByDiff my req k = None" if "k \<notin> fst ` set my"
  proof -
    have "map_of my k = None" using that by (simp add: map_of_eq_None_iff)
    then show ?thesis by (simp add: keptByDiff_def)
  qed
  have "map_of (fst (foldl (dumpDifferenceKey my req) ([], [])
                  (remdups (map fst my @ map fst req)))) k =
        (if k \<in> set (remdups (map fst my @ map fst req)) then keptByDiff my req k
         else map_of [] k)"
    using dumpDifference_fold[where ks = "remdups (map fst my @ map fst req)" and kvs = "[]"
            and tbu = "[]" and my = my and req = req and k = k]
    by simp
  then show ?thesis using n by (auto simp: dumpDifference_def Let_def)
qed

lemma dumpDifference_tobeUpdatedKeys:
  "\<exists>ks. tobeUpdatedKeys (dumpDifference my req) = Some ks \<and> distinct ks \<and>
        set ks = {k \<in> fst ` set my \<union> fst ` set req. wantedByDiff my req k}"
proof -
  have "snd (foldl (dumpDifferenceKey my req) ([], [])
                  (remdups (map fst my @ map fst req))) =
        [] @ filter (wantedByDiff my req) (remdups (map fst my @ map fst req))"
    using dumpDifference_fold[where ks = "remdups (map fst my @ map fst req)" and kvs = "[]"
            and tbu = "[]" and my = my and req = req]
    by simp
  then show ?thesis by (auto simp: dumpDifference_def Let_def)
qed

lemma compareValues_digest:
  "val v2 = None \<Longrightarrow>
   compareValues v1 v2 = 1 \<or> compareValues v1 v2 = - 1 \<or> compareValues v1 v2 = 0 \<or>
   compareValues v1 v2 = - 2"
  by (auto simp: compareValues_def split: option.splits)

text \<open>
  Claim C2 says that \<^verbatim>\<open>keyVals\<close> holds every key whose record in \<^verbatim>\<open>myKeyVal\<close> is strictly
  better. Here both maps hold the key \<open>k\<close> with the same version and originator,
  different hashes, and the values \<open>aaa\<close> (mine) and \<open>a\<close> (requested): mine is greater, yet
  \<^verbatim>\<open>compareValues\<close> returns 2, the result of \<^verbatim>\<open>std::string::compare\<close>, which
  \<^verbatim>\<open>dumpDifference\<close> takes for neither 1 nor -1 nor -2, and the key is in neither list.
\<close>

theorem dumpDifference_drops_better_key:
  "map_of (keyVals (dumpDifference
     [(''k'', (mkValue 1 ''a'' (Some ''aaa'') 5000 1)\<lparr>hash := Some 1\<rparr>)]
     [(''k'', (mkValue 1 ''a'' (Some ''a'') 5000 1)\<lparr>hash := Some 2\<rparr>)])) ''k'' = None \<and>
   tobeUpdatedKeys (dumpDifference
     [(''k'', (mkValue 1 ''a'' (Some ''aaa'') 5000 1)\<lparr>hash := Some 1\<rparr>)]
     [(''k'', (mkValue 1 ''a'' (Some ''a'') 5000 1)\<lparr>hash := Some 2\<rparr>)]) = Some [] \<and>
   compareValues ((mkValue 1 ''a'' (Some ''aaa'') 5000 1)\<lparr>hash := Some 1\<rparr>)
     ((mkValue 1 ''a'' (Some ''a'') 5000 1)\<lparr>hash := Some 2\<rparr>) = 2 \<and>
   ''a'' < ''aaa''"
  by (simp add: dumpDifference_def dumpDifferenceKey_def compareValues_def mkValue_def
        string_compare_def S_compare_def emptyPublication_def Let_def)

section \<open>\<^verbatim>\<open>updatePublicationTtl\<close>\<close>

lemma updateTtlEntry_at:
  "map_of (updateTtlEntry ext now decr rae kvs qE) k =
     (case map_of kvs k of
        None \<Rightarrow> None
      | Some v \<Rightarrow>
          if entryMatches qE k v
          then (if dropsKey ext now decr rae qE then None
                else Some (v\<lparr>ttl := millisecondsBetween (expiryTime qE) now - decr\<rparr>))
          else Some v)"
proof (cases "key qE = k")
  case True
  then show ?thesis
    by (auto simp: updateTtlEntry_def entryMatches_def dropsKey_def Let_def map_of_erase
          map_of_assign split: option.splits)
next
  case False
  then show ?thesis
    by (auto simp: updateTtlEntry_def entryMatches_def Let_def map_of_erase
          map_of_assign split: option.splits)
qed

lemma updateTtl_fold_None:
  "map_of kvs k = None \<Longrightarrow>
   map_of (foldl (updateTtlEntry ext now decr rae) kvs q) k = None"
  by (induction q arbitrary: kvs) (simp_all add: updateTtlEntry_at)

lemma entryMatches_ttl [simp]: "entryMatches qE k (v\<lparr>ttl := t\<rparr>) = entryMatches qE k v"
  by (simp add: entryMatches_def)

lemma updateTtl_fold_Some:
  "map_of kvs k = Some v \<Longrightarrow>
   map_of (foldl (updateTtlEntry ext now decr rae) kvs q) k =
     (let ms = filter (\<lambda>qE. entryMatches qE k v) q in
      if ms = [] then Some v
      else if \<exists>qE \<in> set ms. dropsKey ext now decr rae qE then None
      else Some (v\<lparr>ttl := millisecondsBetween (expiryTime (last ms)) now - decr\<rparr>))"
proof (induction q arbitrary: kvs v)
  case Nil
  then show ?case by simp
next
  case (Cons e q)
  let ?kvs1 = "updateTtlEntry ext now decr rae kvs e"
  show ?case
  proof (cases "entryMatches e k v")
    case False
    then have "map_of ?kvs1 k = Some v" using Cons.prems by (simp add: updateTtlEntry_at)
    from Cons.IH[OF this] show ?thesis using False by simp
  next
    case True
    show ?thesis
    proof (cases "dropsKey ext now decr rae e")
      case d: True
      then have "map_of ?kvs1 k = None" using Cons.prems True by (simp add: updateTtlEntry_at)
      then show ?thesis using True d by (simp add: updateTtl_fold_None)
    next
      case d: False
      let ?v1 = "v\<lparr>ttl := millisecondsBetween (expiryTime e) now - decr\<rparr>"
      have "map_of ?kvs1 k = Some ?v1"
        using Cons.prems True d by (simp add: updateTtlEntry_at)
      from Cons.IH[OF this] show ?thesis using True d by (auto simp: Let_def filter_empty_conv)
    qed
  qed
qed

text \<open>
  Claim C4 as stated fails, in two ways. With a TTL decrement of 1 ms, a key whose entry
  expires 2 ms from now (the instant 2000000, in nanoseconds) leaves
  \<^verbatim>\<open>updatePublicationTtl\<close> (called without \<^verbatim>\<open>removeAboutToExpire\<close>, as for the reply to a
  request) with the remaining TTL \<open>2 - 1 = 1\<close>, which is not above the decrement, and is not
  dropped. Called with \<^verbatim>\<open>removeAboutToExpire\<close>, as \<^verbatim>\<open>floodPublication\<close> does, and a threshold
  of 500 ms, a key whose entry expires 100 ms from now is dropped, not sent with the TTL 99.
\<close>

theorem updatePublicationTtl_counterexample:
  "keyVals (updatePublicationTtl ext0 0
      (st0\<lparr>ttlCountdownQueue :=
         [\<lparr>expiryTime = 2000000, key = ''k'', entryVersion = 1, entryTtlVersion = 1,
           entryOriginatorId = ''a''\<rparr>]\<rparr>)
      (emptyPublication\<lparr>keyVals := [(''k'', mkValue 1 ''a'' (Some ''v'') 5000 1)]\<rparr>) False) =
     [(''k'', mkValue 1 ''a'' (Some ''v'') (millisecondsBetween 2000000 0 - ttlDecr st0) 1)] \<and>
   millisecondsBetween 2000000 0 = 2 \<and>
   millisecondsBetween 2000000 0 - ttlDecr st0 \<le> ttlDecr st0 \<and>
   keyVals (updatePublicationTtl ext0 0
      (st0\<lparr>ttlCountdownQueue :=
         [\<lparr>expiryTime = 100000000, key = ''k'', entryVersion = 1, entryTtlVersion = 1,
           entryOriginatorId = ''a''\<rparr>]\<rparr>)
      (emptyPublication\<lparr>keyVals := [(''k'', mkValue 1 ''a'' (Some ''v'') 5000 1)]\<rparr>) True) = [] \<and>
   millisecondsBetween 100000000 0 = 100 \<and>
   \<not> millisecondsBetween 100000000 0 - ttlDecr st0 \<le> ttlDecr st0 \<and> kTtlThreshold ext0 = 500"
  by (simp add: updatePublicationTtl_def updateTtlEntry_def st0_def ext0_def mkValue_def
        emptyPublication_def erase_def millisecondsBetween_def wrap64_def Let_def)

text \<open>
  Claim C4, amended. For a key \<open>k\<close> of the publication with record \<open>v\<close>, let \<open>ms\<close> be the
  queue entries that match \<open>v\<close> (same key, version, originator, ttlVersion), in the order
  of the queue. Without such an entry the record is unchanged. If for some entry of \<open>ms\<close>
  the time left \<open>expiry - now\<close> is at most \<^verbatim>\<open>ttlDecr_\<close> (the outgoing TTL would be at most 0),
  or \<^verbatim>\<open>removeAboutToExpire\<close> is set and the time left is below \<^verbatim>\<open>kTtlThreshold\<close>, the key
  is dropped. Otherwise the outgoing record is \<open>v\<close> with \<open>ttl = expiry - now - ttlDecr\<close>, the
  expiry taken from the last entry of \<open>ms\<close> (the entry, when there is one only). The time
  left \<open>expiry - now\<close> is in whole milliseconds, \<^const>\<open>millisecondsBetween\<close> the two instants.
\<close>

theorem updatePublicationTtl_key:
  assumes "map_of (keyVals pub) k = Some v"
  shows "map_of (keyVals (updatePublicationTtl ext now st pub rae)) k =
     (let ms = filter (\<lambda>qE. entryMatches qE k v) (ttlCountdownQueue st) in
      if ms = [] then Some v
      else if \<exists>qE \<in> set ms. dropsKey ext now (ttlDecr st) rae qE then None
      else Some (v\<lparr>ttl := millisecondsBetween (expiryTime (last ms)) now - ttlDecr st\<rparr>))"
  using updateTtl_fold_Some[OF assms, of ext now "ttlDecr st" rae "ttlCountdownQueue st"]
  by (simp add: updatePublicationTtl_def)

theorem updatePublicationTtl_key_witness:
  "map_of (keyVals (updatePublicationTtl ext0 0
      (st0\<lparr>ttlCountdownQueue :=
         [\<lparr>expiryTime = 5000000000, key = ''k'', entryVersion = 1, entryTtlVersion = 1,
           entryOriginatorId = ''a''\<rparr>]\<rparr>)
      (emptyPublication\<lparr>keyVals := [(''k'', mkValue 1 ''a'' (Some ''v'') 5000 1)]\<rparr>) True)) ''k'' =
   Some (mkValue 1 ''a'' (Some ''v'') 4999 1)"
  using updatePublicationTtl_key[of
      "emptyPublication\<lparr>keyVals := [(''k'', mkValue 1 ''a'' (Some ''v'') 5000 1)]\<rparr>" "''k''"
      "mkValue 1 ''a'' (Some ''v'') 5000 1" ext0 0
      "st0\<lparr>ttlCountdownQueue :=
         [\<lparr>expiryTime = 5000000000, key = ''k'', entryVersion = 1, entryTtlVersion = 1,
           entryOriginatorId = ''a''\<rparr>]\<rparr>" True]
  by (simp add: st0_def ext0_def mkValue_def emptyPublication_def entryMatches_def dropsKey_def
        millisecondsBetween_def wrap64_def)

section \<open>\<^verbatim>\<open>cleanupTtlCountdownQueue\<close>\<close>

lemma expireEntry_eq:
  "expireEntry (s, ks) e =
     (if storeMatches s e then (erase s (key e), ks @ [key e]) else (s, ks))"
  by (auto simp: expireEntry_def storeMatches_def entryMatches_def split: option.splits)

lemma queueTop_None: "queueTop q = None \<longleftrightarrow> q = []"
  by (induction q) (auto split: option.splits)


lemma queueTop_least: "queueTop q = Some m \<Longrightarrow> e \<in> set q \<Longrightarrow> expiryTime m \<le> expiryTime e"
proof (induction q arbitrary: m)
  case Nil
  then show ?case by simp
next
  case (Cons a q)
  show ?case
  proof (cases "queueTop q")
    case None
    then have "q = []" by (simp add: queueTop_None)
    then show ?thesis using Cons.prems by simp
  next
    case (Some m')
    then show ?thesis using Cons.prems Cons.IH[OF Some]
      by (fastforce split: if_splits)
  qed
qed




lemma cleanupLoop_unfold:
  "queueTop q = Some m \<Longrightarrow> \<not> now < expiryTime m \<Longrightarrow>
   cleanupLoop ext now acc q =
     cleanupLoop ext now (expireEntry acc m) (arranged (popOrder ext) (remove1 m q))"
  by (subst cleanupLoop.simps) simp

lemma cleanupLoop_stop:
  "queueTop q = None \<or> (\<exists>m. queueTop q = Some m \<and> now < expiryTime m) \<Longrightarrow>
   cleanupLoop ext now acc q = (acc, q) \<and> \<not> expiredKey now s q k"
proof -
  assume h: "queueTop q = None \<or> (\<exists>m. queueTop q = Some m \<and> now < expiryTime m)"
  have "\<forall>e \<in> set q. now < expiryTime e"
    using h queueTop_least queueTop_None by fastforce
  then have "\<not> expiredKey now s q k" by (fastforce simp: expiredKey_def)
  moreover have "cleanupLoop ext now acc q = (acc, q)"
    using h by (subst cleanupLoop.simps) auto
  ultimately show ?thesis by simp
qed










section \<open>The publication buffer and its flush\<close>



















section \<open>Looped publications and malformed requests\<close>

text \<open>
  Claim C3 as stated fails for a publication that comes from a peer, has no \<^verbatim>\<open>keyVals\<close>
  and asks for no keys: a sync response of the peer \<open>n2\<close> whose trail holds this node,
  \<open>n1\<close>. \<^verbatim>\<open>mergePublication\<close> returns before the loop check, and the counter of looped
  publications stays as it was, while the counter of received publications goes up. (A
  KEY_SET request cannot bring such a publication: it is refused when its \<^verbatim>\<open>keyVals\<close> are
  empty.)
\<close>

theorem mergePublication_loop_counterexample:
  "nodeIds (emptyPublication\<lparr>nodeIds := Some [''n2'', ''n1'']\<rparr>) = Some [''n2'', ''n1''] \<and>
   nodeId st0 \<in> set [''n2'', ''n1''] \<and>
   mergePublication ext0 ops0 0 True st0 (emptyPublication\<lparr>nodeIds := Some [''n2'', ''n1'']\<rparr>)
     (Some ''n2'') =
     Inr (addStatValue (addStatValue st0 ''kvstore.received_publications'' 1)
            ''kvstore.received_key_vals'' 0, 0) \<and>
   (case processSyncResponse ext0 ops0 0 True st0
           (emptyPublication\<lparr>nodeIds := Some [''n2'', ''n1'']\<rparr>) ''n2'' of
      Inl e \<Rightarrow> False
    | Inr st' \<Rightarrow>
        tData st' ''kvstore.received_publications'' = [1] \<and>
        tData st' ''kvstore.looped_publications'' = [] \<and>
        tData st0 ''kvstore.looped_publications'' = [])"
  by (simp add: processSyncResponse_def mergePublication_def emptyPublication_def st0_def
        addStatValue_def Let_def)

text \<open>
  Claim C3, amended. For every received publication whose trail \<^verbatim>\<open>nodeIds\<close> holds this
  node's id, \<^verbatim>\<open>mergePublication\<close> returns 0 and changes nothing but statistics: the store,
  the TTL queue, the buffer and what was sent to subscribers and peers are as before. The
  counter \<open>kvstore.looped_publications\<close> gets exactly one more sample, of value 1, when
  the publication has \<^verbatim>\<open>keyVals\<close> or comes from a peer with a non-empty
  \<^verbatim>\<open>tobeUpdatedKeys\<close>; otherwise it is unchanged.
\<close>

theorem mergePublication_loop:
  assumes "nodeIds pub = Some ids" and "nodeId st \<in> set ids"
  shows "\<exists>st'. mergePublication ext ops now consume st pub sender = Inr (st', 0) \<and>
           st'\<lparr>tData := tData st\<rparr> = st \<and>
           tData st' ''kvstore.looped_publications'' =
             tData st ''kvstore.looped_publications'' @
             (if keyVals pub \<noteq> [] \<or> needsFinalize pub sender then [1] else [])"
  using assms
  by (auto simp: mergePublication_def addStatValue_def needsFinalize_def Let_def)

text \<open>Scenario S6 of the specification: the trail \<open>[n1, n2, n3]\<close> comes back to \<open>n1\<close>.\<close>

theorem mergePublication_loop_witness:
  "\<exists>st'. mergePublication ext0 ops0 0 True st0
            (emptyPublication\<lparr>keyVals := [(''k'', mkValue 1 ''a'' (Some ''v'') 5000 1)],
               nodeIds := Some [''n1'', ''n2'', ''n3'']\<rparr>) None = Inr (st', 0) \<and>
         kvStore st' = [] \<and> pubSent st' = [] \<and> peerSent st' = [] \<and>
         tData st' ''kvstore.looped_publications'' = [1]"
proof -
  obtain st' where r: "mergePublication ext0 ops0 0 True st0
            (emptyPublication\<lparr>keyVals := [(''k'', mkValue 1 ''a'' (Some ''v'') 5000 1)],
               nodeIds := Some [''n1'', ''n2'', ''n3'']\<rparr>) None = Inr (st', 0)"
    "st'\<lparr>tData := tData st0\<rparr> = st0"
    "tData st' ''kvstore.looped_publications'' = tData st0 ''kvstore.looped_publications'' @ [1]"
    using mergePublication_loop[of
        "emptyPublication\<lparr>keyVals := [(''k'', mkValue 1 ''a'' (Some ''v'') 5000 1)],
               nodeIds := Some [''n1'', ''n2'', ''n3'']\<rparr>" "[''n1'', ''n2'', ''n3'']" st0
        ext0 ops0 0 True None]
    by (auto simp: emptyPublication_def st0_def)
  have "kvStore (st'\<lparr>tData := tData st0\<rparr>) = [] \<and> pubSent (st'\<lparr>tData := tData st0\<rparr>) = [] \<and>
        peerSent (st'\<lparr>tData := tData st0\<rparr>) = []"
    unfolding r(2) by (simp add: st0_def)
  then show ?thesis using r(1,3) by (simp add: st0_def)
qed

text \<open>
  Claim C9 as stated fails for DUAL: a DUAL request without messages is answered with an
  empty message, which is what a served request gets too, not with an error.
\<close>

theorem processRequestMsg_malformed_counterexample:
  "malformed (emptyRequest DUAL) \<and>
   processRequestMsg ext0 ops0 0 True st0 (Some (emptyRequest DUAL)) =
     Inr (st0, Expected EmptyMessage)"
  by (simp add: malformed_def emptyRequest_def processRequestMsg_def)

text \<open>
  Claim C9, amended. For every malformed request \<^verbatim>\<open>processRequestMsg\<close> returns without
  changing anything but statistics, so the store is not mutated; the reply is an error
  for KEY_SET, KEY_GET, KEY_DUMP, HASH_DUMP, PEER_ADD and PEER_DEL, and an empty message
  for DUAL and FLOOD_TOPO_SET.
\<close>

theorem processRequestMsg_malformed:
  assumes "malformed req"
  shows "\<exists>st'. processRequestMsg ext ops now consume st (Some req) =
                 Inr (st', if cmd req = DUAL \<or> cmd req = FLOOD_TOPO_SET
                           then Expected EmptyMessage else Unexpected) \<and>
               st'\<lparr>tData := tData st\<rparr> = st"
  using assms
  by (cases "cmd req")
     (auto simp: malformed_def processRequestMsg_def addStatValue_def Let_def
           split: option.splits)

theorem processRequestMsg_malformed_witness:
  "\<exists>st'. processRequestMsg ext0 ops0 0 True st0
            (Some ((emptyRequest KEY_SET)\<lparr>keySetParams :=
               Some \<lparr>setKeyVals = [], solicitResponse = True, setNodeIds = None,
                     setFloodRootId = None\<rparr>\<rparr>)) = Inr (st', Unexpected) \<and>
         st'\<lparr>tData := tData st0\<rparr> = st0"
  using processRequestMsg_malformed[of
      "(emptyRequest KEY_SET)\<lparr>keySetParams :=
               Some \<lparr>setKeyVals = [], solicitResponse = True, setNodeIds = None,
                     setFloodRootId = None\<rparr>\<rparr>" ext0 ops0 0 True st0]
  by (simp add: malformed_def emptyRequest_def)

section \<open>The invariant of the store\<close>

lemma set_emplace: "set (emplace m k v) \<subseteq> insert (k, v) (set m)"
  by (auto simp: emplace_def split: option.splits)

lemma set_assign: "set (assign m k v) \<subseteq> insert (k, v) (set m)"
  by (induction m) auto

lemma set_erase: "set (erase m k) \<subseteq> set m"
  by (auto simp: erase_def)

lemma storeInv_emplace:
  "storeInv s \<Longrightarrow> val v \<noteq> None \<Longrightarrow> hash v \<noteq> None \<Longrightarrow> storeInv (emplace s k v)"
  using set_emplace[of s k v] by (fastforce simp: storeInv_def)

lemma storeInv_assign:
  "storeInv s \<Longrightarrow> val v \<noteq> None \<Longrightarrow> hash v \<noteq> None \<Longrightarrow> storeInv (assign s k v)"
  using set_assign[of s k v] by (fastforce simp: storeInv_def)

lemma storeInv_erase: "storeInv s \<Longrightarrow> storeInv (erase s k)"
  using set_erase[of s k] by (fastforce simp: storeInv_def)

lemma storeInv_lookup:
  "storeInv s \<Longrightarrow> map_of s k = Some v \<Longrightarrow> val v \<noteq> None \<and> hash v \<noteq> None"
  by (fastforce simp: storeInv_def dest: map_of_SomeD)

lemma checkUpdateAll_cases:
  assumes "it = None \<or> (\<exists>old. it = Some old \<and> val old \<noteq> None)"
  shows "(case checkUpdateAll v it mv of
            Inl e \<Rightarrow> e = EndIteratorDeref
          | Inr (a, t) \<Rightarrow> (a \<longrightarrow> val v \<noteq> None) \<and> (t \<longrightarrow> it \<noteq> None))"
  using assms
  by (auto simp: checkUpdateAll_def Let_def split: option.splits)

lemma mergeKeyValue_inv:
  assumes "storeInv s"
  shows "(case mergeKeyValue ext flt (s, u) kv of
            Inl e \<Rightarrow> e = EndIteratorDeref
          | Inr r \<Rightarrow> storeInv (fst r))"
proof -
  obtain k v where kv: "kv = (k, v)" by (cases kv)
  define it where "it = map_of s k"
  define mv where "mv = (case it of None \<Rightarrow> 0 | Some old \<Rightarrow> version old)"
  have itc: "it = None \<or> (\<exists>old. it = Some old \<and> val old \<noteq> None)"
    using assms storeInv_lookup[of s k] by (cases it) (auto simp: it_def)
  have ith: "\<And>old. it = Some old \<Longrightarrow> val old \<noteq> None \<and> hash old \<noteq> None"
    using assms storeInv_lookup[of s k] by (auto simp: it_def)
  show ?thesis
  proof (cases "checkUpdateAll v it mv")
    case (Inl e)
    then have "e = EndIteratorDeref" using checkUpdateAll_cases[OF itc, of v mv] by simp
    then show ?thesis using Inl kv
      by (simp add: mergeKeyValue_def Let_def it_def[symmetric] mv_def[symmetric] assms)
  next
    case (Inr p)
    obtain a t where p: "p = (a, t)" by (cases p)
    have c: "(a \<longrightarrow> val v \<noteq> None)" "(t \<longrightarrow> it \<noteq> None)"
      using checkUpdateAll_cases[OF itc, of v mv] Inr p by simp_all
    have ct: "checkUpdateTtl v it \<longrightarrow> it \<noteq> None"
      by (cases it) (auto simp: checkUpdateTtl_def)
    have n1: "storeInv (emplace s k x)" "storeInv (assign s k x)"
      if "val x \<noteq> None" "hash x \<noteq> None" for x
      using that assms by (simp_all add: storeInv_emplace storeInv_assign)
    show ?thesis
      using Inr p c ct kv assms ith n1
      by (auto simp: mergeKeyValue_def Let_def it_def[symmetric] mv_def[symmetric]
            split: option.splits)
  qed
qed

lemma mergeLoop_inv:
  "storeInv (fst st) \<Longrightarrow>
   (case mergeLoop ext flt st kvs of
      Inl e \<Rightarrow> e = EndIteratorDeref
    | Inr r \<Rightarrow> storeInv (fst r))"
proof (induction kvs arbitrary: st)
  case Nil
  then show ?case by simp
next
  case (Cons kv kvs)
  obtain s u where st: "st = (s, u)" by (cases st)
  show ?case
  proof (cases "mergeKeyValue ext flt (s, u) kv")
    case (Inl e)
    then show ?thesis using mergeKeyValue_inv[of s ext flt u kv] Cons.prems st by simp
  next
    case (Inr r)
    then have "storeInv (fst r)" using mergeKeyValue_inv[of s ext flt u kv] Cons.prems st by simp
    from Cons.IH[OF this] show ?thesis using Inr st by simp
  qed
qed

lemma mergeKeyValues_inv:
  "storeInv s \<Longrightarrow>
   (case mergeKeyValues ext s kvs flt of
      Inl e \<Rightarrow> e = EndIteratorDeref
    | Inr r \<Rightarrow> storeInv (fst r))"
  using mergeLoop_inv[of "(s, [])" ext flt kvs] by (simp add: mergeKeyValues_def)

lemma kvStore_updateTtlCountdownQueue [simp]:
  "kvStore (updateTtlCountdownQueue ext now st pub) = kvStore st"
  by (simp add: updateTtlCountdownQueue_def)

lemma kvStore_addStatValue [simp]: "kvStore (addStatValue st name x) = kvStore st"
  by (simp add: addStatValue_def)

lemma kvStore_floodPublication [simp]:
  "kvStore (floodPublication ext ops now consume st pub rl sfr) = kvStore st"
  using sameStore_floodPublication[of st ext ops now consume pub rl sfr]
  by (simp add: sameStore_def)

lemma kvStore_floodBufferedUpdates [simp]:
  "kvStore (floodBufferedUpdates ext ops now st) = kvStore st"
  using sameStore_floodBufferedUpdates[of st ext ops now] by (simp add: sameStore_def)

lemma kvStore_finalizeFullSync [simp]:
  "kvStore (finalizeFullSync ops st ks sender) = kvStore st"
  by (simp add: finalizeFullSync_def sendMessageToPeer_def Let_def)

lemma kvStore_sendTopoSetCmd [simp]:
  "kvStore (sendTopoSetCmd st root peer child allRts) = kvStore st"
  by (simp add: sendTopoSetCmd_def sendMessageToPeer_def split: option.splits)

lemma kvStore_addPeer: "kvStore (addPeer ext st kv) = kvStore st"
  by (simp add: addPeer_def Let_def split: option.splits)

lemma kvStore_addPeers [simp]: "kvStore (addPeers ext ops st ps) = kvStore st"
proof -
  have f: "kvStore (foldl (addPeer ext) s ps) = kvStore s" for s
    by (rule foldl_keeps) (rule kvStore_addPeer)
  show ?thesis by (simp add: addPeers_def Let_def f)
qed

lemma kvStore_delPeer: "kvStore (fst (delPeer acc peer)) = kvStore (fst acc)"
  by (simp add: delPeer_def Let_def split: option.splits)

lemma kvStore_delPeers [simp]: "kvStore (delPeers ops st ps) = kvStore st"
proof -
  have "kvStore (fst (foldl delPeer acc ps)) = kvStore (fst acc)" for acc
    by (rule foldl_keeps[where g = "\<lambda>a. kvStore (fst a)"]) (rule kvStore_delPeer)
  from this[of "(st, [])"] show ?thesis by (simp add: delPeers_def Let_def)
qed

lemma kvStore_processFloodTopoSet [simp]:
  "kvStore (processFloodTopoSet ops st p) = kvStore st"
  by (simp add: processFloodTopoSet_def)

lemma mergePublication_inv:
  assumes "storeInv (kvStore st)"
  shows "(case mergePublication ext ops now consume st pub sender of
            Inl e \<Rightarrow> e = EndIteratorDeref
          | Inr r \<Rightarrow> storeInv (kvStore (fst r)))"
proof -
  define st2 where "st2 = addStatValue (addStatValue st ''kvstore.received_publications'' 1)
                  ''kvstore.received_key_vals'' (int (length (keyVals pub)))"
  have k2: "kvStore st2 = kvStore st" by (simp add: st2_def)
  show ?thesis
  proof (cases "mergeKeyValues ext (kvStore st2) (keyVals pub) (filters st2)")
    case (Inl e)
    then have "e = EndIteratorDeref"
      using mergeKeyValues_inv[of "kvStore st2" ext "keyVals pub" "filters st2"] assms k2 by simp
    then show ?thesis using Inl assms
      by (simp add: mergePublication_def Let_def st2_def[symmetric] k2)
  next
    case (Inr r)
    obtain s' u' where r: "r = (s', u')" by (cases r)
    have "storeInv s'"
      using mergeKeyValues_inv[of "kvStore st2" ext "keyVals pub" "filters st2"] assms k2 Inr r
      by simp
    then show ?thesis using Inr r assms
      by (simp add: mergePublication_def Let_def st2_def[symmetric] k2)
  qed
qed

lemma dumpHash_fold:
  "\<forall>p \<in> set s. hash (snd p) \<noteq> None \<Longrightarrow>
   \<exists>kvs. foldl (dumpHashEntry f) (Inr acc) s = Inr kvs"
  by (induction s arbitrary: acc) (auto simp: dumpHashEntry_def)

lemma dumpHashWithFilters_ok:
  "storeInv (kvStore st) \<Longrightarrow> \<exists>pub. dumpHashWithFilters st f = Inr pub"
proof -
  assume "storeInv (kvStore st)"
  then have "\<forall>p \<in> set (kvStore st). hash (snd p) \<noteq> None" by (simp add: storeInv_def)
  from dumpHash_fold[OF this, of f "[]"] show ?thesis
    by (auto simp: dumpHashWithFilters_def)
qed

lemma processRequestMsg_inv:
  assumes "storeInv (kvStore st)"
  shows "(case processRequestMsg ext ops now consume st req of
            Inl e \<Rightarrow> e = EndIteratorDeref
          | Inr r \<Rightarrow> storeInv (kvStore (fst r)))"
proof (cases req)
  case None
  then show ?thesis using assms by (simp add: processRequestMsg_def)
next
  case (Some thriftReq)
  show ?thesis
  proof (cases "cmd thriftReq")
    case KEY_SET
    show ?thesis
    proof (cases "keySetParams thriftReq")
      case None
      then show ?thesis using Some KEY_SET assms by (simp add: processRequestMsg_def)
    next
      case (Some p)
      define st1 where "st1 = addStatValue st ''kvstore.cmd_key_set'' 1"
      define rp where "rp = emptyPublication\<lparr>keyVals := map (updateHash ext) (setKeyVals p),
                         nodeIds := setNodeIds p, floodRootId := setFloodRootId p\<rparr>"
      have i1: "storeInv (kvStore st1)" using assms by (simp add: st1_def)
      show ?thesis
        using mergePublication_inv[OF i1, of ext ops now consume rp None] Some KEY_SET
          \<open>req = Some thriftReq\<close> i1
        by (auto simp: processRequestMsg_def Let_def st1_def[symmetric] rp_def[symmetric]
              split: sum.splits)
    qed
  next
    case HASH_DUMP
    show ?thesis
    proof (cases "keyDumpParams thriftReq")
      case None
      then show ?thesis using Some HASH_DUMP assms by (simp add: processRequestMsg_def)
    next
      case (Some p)
      define st1 where "st1 = addStatValue st ''kvstore.cmd_hash_dump'' 1"
      have i1: "storeInv (kvStore st1)" using assms by (simp add: st1_def)
      show ?thesis
        using dumpHashWithFilters_ok[OF i1] Some HASH_DUMP \<open>req = Some thriftReq\<close> i1
        by (simp add: processRequestMsg_def Let_def st1_def[symmetric] split: sum.splits)
           (metis Inl_Inr_False)
    qed
  qed (use Some assms in \<open>auto simp: processRequestMsg_def Let_def split: option.splits\<close>)
qed

lemma cleanupLoop_inv:
  "storeInv s \<Longrightarrow> storeInv (fst (fst (cleanupLoop ext now (s, ks) q)))"
proof (induction ext now "(s, ks)" q arbitrary: s ks rule: cleanupLoop.induct)
  case (1 ext now q)
  show ?case
  proof (cases "queueTop q = None \<or> (\<exists>m. queueTop q = Some m \<and> now < expiryTime m)")
    case True
    then show ?thesis using cleanupLoop_stop[OF True, of ext "(s, ks)" s] "1.prems" by simp
  next
    case False
    then obtain m where m: "queueTop q = Some m" "\<not> now < expiryTime m" by auto
    obtain s1 ks1 where e1: "expireEntry (s, ks) m = (s1, ks1)" by (cases "expireEntry (s, ks) m")
    have unf: "cleanupLoop ext now (s, ks) q =
                 cleanupLoop ext now (s1, ks1) (arranged (popOrder ext) (remove1 m q))"
      using cleanupLoop_unfold[OF m] e1 by simp
    have i1: "storeInv s1"
      using e1 "1.prems" storeInv_erase[of s "key m"]
      by (auto simp: expireEntry_eq split: if_splits)
    show ?thesis unfolding unf using "1.hyps"[OF m e1 i1] .
  qed
qed

lemma cleanupTtlCountdownQueue_inv:
  "storeInv (kvStore st) \<Longrightarrow> storeInv (kvStore (cleanupTtlCountdownQueue ext ops now consume st))"
  using cleanupLoop_inv[of "kvStore st" ext now "[]" "ttlCountdownQueue st"]
  by (simp add: cleanupTtlCountdownQueue_def Let_def)

lemma handleEvent_inv:
  assumes "storeInv (kvStore st)"
  shows "(case handleEvent ext ops st ev of
            Inl e \<Rightarrow> e = EndIteratorDeref
          | Inr st' \<Rightarrow> storeInv (kvStore st'))"
proof (cases ev)
  case (RequestMsg now consume req)
  then show ?thesis
    using processRequestMsg_inv[OF assms, of ext ops now consume req]
    by (auto simp: handleEvent_def split: sum.splits)
next
  case (SyncResponse now consume syncPub requestId)
  then show ?thesis
    using mergePublication_inv[OF assms, of ext ops now consume syncPub "Some requestId"]
    by (auto simp: handleEvent_def processSyncResponse_def split: sum.splits)
next
  case (TtlCountdownTimer now consume)
  then show ?thesis
    using cleanupTtlCountdownQueue_inv[OF assms] by (simp add: handleEvent_def)
next
  case (PendingPublicationTimer now consume)
  then show ?thesis using assms by (simp add: handleEvent_def)
qed

text \<open>
  Claim C10. Every record held in the store has a value and a hash. From a store with
  this property (the empty store of a new \<^verbatim>\<open>KvStore\<close>), after any sequence of events that
  the handlers get through, every record of the store has both fields, and
  \<^verbatim>\<open>dumpHashWithFilters\<close> passes its \<^verbatim>\<open>DCHECK\<close> for every filter. A run can only end in
  the dereference of the end iterator in \<^verbatim>\<open>mergeKeyValues\<close> (a record of version 0 with
  a value, for a new key): no \<^verbatim>\<open>CHECK\<close> fails and no empty optional is dereferenced.
\<close>

theorem stored_records_have_value_and_hash:
  assumes "storeInv (kvStore st)"
  shows "(case run ext ops st evs of
            Inl e \<Rightarrow> e = EndIteratorDeref
          | Inr st' \<Rightarrow>
              storeInv (kvStore st') \<and>
              (\<forall>kvFilters. \<exists>pub. dumpHashWithFilters st' kvFilters = Inr pub))"
  using assms
proof (induction evs arbitrary: st)
  case Nil
  then show ?case using dumpHashWithFilters_ok[of st] by simp
next
  case (Cons ev evs)
  show ?case
  proof (cases "handleEvent ext ops st ev")
    case (Inl e)
    then show ?thesis using handleEvent_inv[OF Cons.prems, of ext ops ev] by simp
  next
    case (Inr st1)
    then have "storeInv (kvStore st1)" using handleEvent_inv[OF Cons.prems, of ext ops ev] by simp
    from Cons.IH[OF this] show ?thesis using Inr by simp
  qed
qed

lemma run_example:
  "\<exists>st'. run ext0 ops0 st0 [RequestMsg 0 True (Some keySetExample)] = Inr st' \<and>
         kvStore st' = [(''x'', (mkValue 1 ''a'' (Some ''v'') 5000 1)\<lparr>hash := Some 0\<rparr>)]"
  by (simp add: handleEvent_def processRequestMsg_def keySetExample_def emptyRequest_def
        mergePublication_def mergeKeyValues_def mergeKeyValue_def checkUpdateAll_def
        checkUpdateTtl_def updateHash_def emptyPublication_def ext0_def st0_def mkValue_def
        addStatValue_def emplace_def Let_def)

theorem stored_records_have_value_and_hash_witness:
  "\<exists>st'. run ext0 ops0 st0 [RequestMsg 0 True (Some keySetExample)] = Inr st' \<and>
         kvStore st' = [(''x'', (mkValue 1 ''a'' (Some ''v'') 5000 1)\<lparr>hash := Some 0\<rparr>)] \<and>
         storeInv (kvStore st') \<and>
         (\<forall>kvFilters. \<exists>pub. dumpHashWithFilters st' kvFilters = Inr pub)"
proof -
  obtain st' where r: "run ext0 ops0 st0 [RequestMsg 0 True (Some keySetExample)] = Inr st'"
    "kvStore st' = [(''x'', (mkValue 1 ''a'' (Some ''v'') 5000 1)\<lparr>hash := Some 0\<rparr>)]"
    using run_example by blast
  have "storeInv (kvStore st0)" by (simp add: storeInv_def st0_def)
  from stored_records_have_value_and_hash[OF this, of ext0 ops0
         "[RequestMsg 0 True (Some keySetExample)]"]
  show ?thesis using r by (simp del: run.simps)
qed

end
